(* ===== verification/Prelude.thy ===== *)
theory Prelude
  imports Main "HOL-Library.Word" "HOL-Library.Multiset"
begin

text \<open>
  Shared vocabulary of the Snowflake development: the machine types of the C
  sources (\<open>unsigned char\<close>, \<open>unsigned int\<close>/\<open>chainEntry\<close>, \<open>uint64_t\<close>),
  the error taxonomy (\<open>NullDeref\<close>: a null pointer dereferenced), the model of
  an array read through a memory mapping (a read past the mapped records is the error \<open>OutOfBounds\<close> instead of undefined
  behaviour), \<open>memcmp\<close> on digest prefixes, the C \<open>swap\<close> of two array cells,
  and the list, option and word lemmas the component theories share.
\<close>

unbundle bit_operations_syntax

type_synonym u8 = "8 word"
type_synonym u32 = "32 word"
type_synonym u64 = "64 word"

text \<open>A digest is the byte buffer a hash function fills (\<open>char buf[MAX_HASH_SIZE]\<close>);
  a hash function maps a 32-bit seed to that buffer (\<open>hashFuncPtr\<close>).\<close>

type_synonym digest = "u8 list"
type_synonym hash_fn = "u32 \<Rightarrow> digest"

datatype io_op = OpOpen | OpStat | OpMmap | OpRead | OpWrite | OpClose

datatype error =
    OutOfBounds
  | UnknownHash
  | BadTableName
  | IoError io_op
  | AllocFailure
  | WorkerFailure
  | NullDeref

named_theorems eval_simps "equations that evaluate the model on concrete inputs"
named_theorems rd_simps "facts about reads of mapped arrays"

text \<open>\<open>table[k]\<close> on a memory-mapped array of records: defined only below the
  number of records in the mapping.\<close>

definition rd :: "'a list \<Rightarrow> nat \<Rightarrow> error + 'a" where
  "rd xs k = (if k < length xs then Inr (xs ! k) else Inl OutOfBounds)"

text \<open>The x86 host is little-endian: a 32-bit load through a \<open>chainEntry *\<close> reads
  four bytes least significant first (\<open>le32\<close>), and a 32-bit store writes them
  so (\<open>le_bytes32\<close>).\<close>

definition le32 :: "u8 list \<Rightarrow> u32" where
  "le32 bs = foldr (\<lambda>b acc. ucast b OR push_bit 8 acc) bs 0"

definition le_bytes32 :: "u32 \<Rightarrow> u8 list" where
  "le_bytes32 w = [ucast w, ucast (drop_bit 8 w), ucast (drop_bit 16 w), ucast (drop_bit 24 w)]"

text \<open>\<open>memcmp(a, b, len) == 0\<close>: the first \<open>len\<close> bytes agree.\<close>

definition memcmp_eq :: "u32 \<Rightarrow> digest \<Rightarrow> digest \<Rightarrow> bool" where
  "memcmp_eq len a b \<longleftrightarrow> take (unat len) a = take (unat len) b"

text \<open>\<open>swap(&a[i], &a[j])\<close> on an array held as a list.\<close>

definition swap_at :: "'a list \<Rightarrow> nat \<Rightarrow> nat \<Rightarrow> 'a list" where
  "swap_at xs i j = xs[i := xs ! j, j := xs ! i]"

text \<open>\<open>%u\<close> and \<open>%d\<close> of a non-negative value: the decimal numeral.\<close>

fun dec_string :: "nat \<Rightarrow> string" where
  "dec_string n = (if n < 10 then [char_of (48 + n)] else dec_string (n div 10) @ [char_of (48 + n mod 10)])"

declare dec_string.simps [simp del]

text \<open>The segment \<open>a[i .. j - 1]\<close> of an array, and \<open>frame t t' b e\<close>: \<open>t'\<close> is
  \<open>t\<close> with only its segment \<open>b .. e - 1\<close> permuted (what an in-place sort of that
  segment may do).\<close>

definition seg :: "'a list \<Rightarrow> nat \<Rightarrow> nat \<Rightarrow> 'a list" where
  "seg xs i j = take (j - i) (drop i xs)"

definition frame :: "'a list \<Rightarrow> 'a list \<Rightarrow> nat \<Rightarrow> nat \<Rightarrow> bool" where
  "frame t t' b e \<longleftrightarrow> length t' = length t \<and> take b t' = take b t \<and> drop e t' = drop e t
     \<and> mset (seg t' b e) = mset (seg t b e)"

lemma rd_Inr_iff [rd_simps]: "rd xs k = Inr x \<longleftrightarrow> k < length xs \<and> xs ! k = x"
  by (auto simp: rd_def)

lemma rd_Inl_iff [rd_simps]: "rd xs k = Inl e \<longleftrightarrow> length xs \<le> k \<and> e = OutOfBounds"
  by (auto simp: rd_def)

lemma rd_in_range [simp]: "k < length xs \<Longrightarrow> rd xs k = Inr (xs ! k)"
  by (simp add: rd_def)

lemma rd_out_of_range [simp]: "length xs \<le> k \<Longrightarrow> rd xs k = Inl OutOfBounds"
  by (simp add: rd_def)

lemma memcmp_eq_sym: "memcmp_eq len a b \<longleftrightarrow> memcmp_eq len b a"
  by (auto simp: memcmp_eq_def)

lemma memcmp_eq_trans [trans]: "memcmp_eq len a b \<Longrightarrow> memcmp_eq len b c \<Longrightarrow> memcmp_eq len a c"
  by (simp add: memcmp_eq_def)

lemma memcmp_eq_refl [simp]: "memcmp_eq len a a"
  by (simp add: memcmp_eq_def)

text \<open>A loop that only stores into cells of an array keeps its length.\<close>

lemma length_fold_update: "length (fold (\<lambda>i q. q[f i := g i q]) is q) = length q"
  by (induction "is" arbitrary: q) simp_all

lemma length_swap_at [simp]: "length (swap_at xs i j) = length xs"
  by (simp add: swap_at_def)

lemma mset_swap_at [simp]:
  "i < length xs \<Longrightarrow> j < length xs \<Longrightarrow> mset (swap_at xs i j) = mset xs"
  by (simp add: swap_at_def mset_swap)

lemma nth_swap_at:
  "i < length xs \<Longrightarrow> j < length xs \<Longrightarrow> k < length xs \<Longrightarrow>
   swap_at xs i j ! k = (if k = j then xs ! i else if k = i then xs ! j else xs ! k)"
  by (simp add: swap_at_def nth_list_update)

lemma swap_at_other [simp]: "k \<noteq> i \<Longrightarrow> k \<noteq> j \<Longrightarrow> swap_at xs i j ! k = xs ! k"
  by (simp add: swap_at_def)

text \<open>Unsigned 32-bit values read back as natural numbers below \<open>2^32\<close>.\<close>

lemma unat_u32_less: "unat (w :: u32) < 2 ^ 32"
  using unsigned_less [of w] by simp

lemma unat_u8_less: "unat (b :: u8) < 256"
  using unsigned_less [of b] by simp

text \<open>A byte widened to 32 bits and narrowed back is the byte.\<close>

lemma ucast_u8_u32_u8 [simp]: "(ucast (ucast (b :: u8) :: u32) :: u8) = b"
  by (rule bit_eqI) (auto simp: bit_simps)

lemma unat_of_nat_u32 [simp]: "n < 2 ^ 32 \<Longrightarrow> unat (of_nat n :: u32) = n"
  by (simp add: unat_of_nat take_bit_nat_eq_self)

text \<open>Sign extension of a byte below \<open>0x80\<close> is zero extension.\<close>

lemma not_bit7_u8: "unat (b :: u8) < 128 \<Longrightarrow> \<not> bit b 7"
proof
  assume "unat b < 128" "bit b 7"
  then have "bit (unat b) 7" by (simp add: bit_unsigned_iff)
  with \<open>unat b < 128\<close> show False by (simp add: bit_nat_def)
qed

lemma scast_u8_small: "unat (b :: u8) < 128 \<Longrightarrow> (scast b :: u32) = ucast b"
  by (rule bit_eqI) (auto simp: bit_word_scast_iff bit_word_ucast_iff dest: not_bit7_u8 bit_imp_le_length)

text \<open>Widening a 32-bit value to 64 bits and narrowing a small 64-bit value back
  keep the number.\<close>

lemma unat_ucast_u32_u64 [simp]: "unat (ucast (w :: u32) :: u64) = unat w"
  using unat_u32_less [of w] by (simp add: unsigned_ucast_eq take_bit_nat_eq_self)

lemma unat_ucast_u64_u32: "unat (w :: u64) < 2 ^ 32 \<Longrightarrow> unat (ucast w :: u32) = unat w"
  by (simp add: unsigned_ucast_eq take_bit_nat_eq_self)

lemma unat_and_4095: "unat ((w :: u32) AND 4095) < 4096"
proof -
  have "unat (w AND 4095) \<le> unat (4095 :: u32)"
    by (rule word_and_le1 [THEN word_le_nat_alt [THEN iffD1]])
  then show ?thesis by simp
qed

text \<open>Storing a word and loading it back gives the word.\<close>

lemma le32_le_bytes32 [simp]: "le32 (le_bytes32 w) = w"
proof (rule bit_eqI)
  fix n :: nat
  have "n < 8 \<or> (8 \<le> n \<and> n < 16) \<or> (16 \<le> n \<and> n < 24) \<or> (24 \<le> n \<and> n < 32) \<or> 32 \<le> n"
    by arith
  then show "bit (le32 (le_bytes32 w)) n = bit w n"
    by (elim disjE) (auto simp: le32_def le_bytes32_def bit_simps dest: bit_imp_le_length)
qed

lemma length_le_bytes32 [simp]: "length (le_bytes32 w) = 4"
  by (simp add: le_bytes32_def)

text \<open>Loading four stored bytes and storing the word gives the bytes back.\<close>

lemma four_elems: "length bs = 4 \<Longrightarrow> \<exists>a b c d. bs = [a, b, c, d]"
  by (simp add: numeral_eq_Suc length_Suc_conv) blast

lemma le32_bytes:
  "ucast (le32 [a, b, c, d]) = a \<and> ucast (drop_bit 8 (le32 [a, b, c, d])) = b
   \<and> ucast (drop_bit 16 (le32 [a, b, c, d])) = c \<and> ucast (drop_bit 24 (le32 [a, b, c, d])) = d"
  unfolding le32_def
  by (intro conjI; rule bit_eqI; case_tac "n < 8"; auto simp: bit_simps dest: bit_imp_le_length)

lemma le_bytes32_le32: "length bs = 4 \<Longrightarrow> le_bytes32 (le32 bs) = bs"
  using four_elems [of bs] le32_bytes by (auto simp: le_bytes32_def)

text \<open>Cutting a search range at a point below or above which the predicate fails.\<close>

lemma ex_range_cut_high:
  fixes b c e :: nat
  assumes "\<And>k. c \<le> k \<Longrightarrow> k < e \<Longrightarrow> \<not> P k" "c \<le> e"
  shows "(\<exists>k. b \<le> k \<and> k < e \<and> P k) \<longleftrightarrow> (\<exists>k. b \<le> k \<and> k < c \<and> P k)"
proof
  assume "\<exists>k. b \<le> k \<and> k < e \<and> P k"
  then obtain k where k: "b \<le> k" "k < e" "P k" by blast
  with assms(1) have "k < c" using not_le by blast
  with k show "\<exists>k. b \<le> k \<and> k < c \<and> P k" by blast
next
  assume "\<exists>k. b \<le> k \<and> k < c \<and> P k"
  with assms(2) show "\<exists>k. b \<le> k \<and> k < e \<and> P k" by (meson less_le_trans)
qed
lemma ex_range_cut_low:
  fixes b c e :: nat
  assumes "\<And>k. k < c \<Longrightarrow> \<not> P k" "b \<le> c"
  shows "(\<exists>k. b \<le> k \<and> k < e \<and> P k) \<longleftrightarrow> (\<exists>k. c \<le> k \<and> k < e \<and> P k)"
proof
  assume "\<exists>k. b \<le> k \<and> k < e \<and> P k"
  then obtain k where k: "b \<le> k" "k < e" "P k" by blast
  with assms(1) have "c \<le> k" using not_le by blast
  with k show "\<exists>k. c \<le> k \<and> k < e \<and> P k" by blast
next
  assume "\<exists>k. c \<le> k \<and> k < e \<and> P k"
  with assms(2) show "\<exists>k. b \<le> k \<and> k < e \<and> P k" by (meson le_trans)
qed

subsection \<open>Segments and frames\<close>

lemma length_seg [simp]: "length (seg xs i j) = min (length xs) j - i"
  by (simp add: seg_def)

lemma nth_seg: "k < j - i \<Longrightarrow> j \<le> length xs \<Longrightarrow> seg xs i j ! k = xs ! (i + k)"
  by (simp add: seg_def)

lemma seg_Cons: "i < j \<Longrightarrow> j \<le> length xs \<Longrightarrow> seg xs i j = xs ! i # seg xs (Suc i) j"
  by (simp add: seg_def Cons_nth_drop_Suc take_Suc_conv_app_nth [symmetric] Suc_diff_Suc
    flip: take_Suc_Cons)

lemma seg_snoc: "i < j \<Longrightarrow> j \<le> length xs \<Longrightarrow> seg xs i j = seg xs i (j - 1) @ [xs ! (j - 1)]"
proof -
  assume a: "i < j" "j \<le> length xs"
  then have "j - i = Suc (j - 1 - i)" by simp
  then show ?thesis using a
    by (simp add: seg_def take_Suc_conv_app_nth)
qed

lemma set_seg:
  assumes "j \<le> length xs"
  shows "x \<in> set (seg xs i j) \<longleftrightarrow> (\<exists>k. i \<le> k \<and> k < j \<and> xs ! k = x)"
proof
  assume "x \<in> set (seg xs i j)"
  then obtain k where k: "k < j - i" "seg xs i j ! k = x"
    using assms by (auto simp: in_set_conv_nth)
  then show "\<exists>k. i \<le> k \<and> k < j \<and> xs ! k = x"
    using assms by (intro exI [of _ "i + k"]) (simp add: nth_seg)
next
  assume "\<exists>k. i \<le> k \<and> k < j \<and> xs ! k = x"
  then obtain k where k: "i \<le> k" "k < j" "xs ! k = x" by blast
  then have "seg xs i j ! (k - i) = x" "k - i < length (seg xs i j)"
    using assms by (simp_all add: nth_seg)
  then show "x \<in> set (seg xs i j)" by (metis nth_mem)
qed

lemma seg_cong: "(\<And>k. i \<le> k \<Longrightarrow> k < j \<Longrightarrow> xs ! k = ys ! k) \<Longrightarrow> j \<le> length xs \<Longrightarrow> j \<le> length ys \<Longrightarrow>
   seg xs i j = seg ys i j"
  by (rule nth_equalityI) (auto simp: nth_seg)

lemma seg_swap_at:
  assumes "l \<le> i" "i < r" "l \<le> j" "j < r" "r \<le> length xs"
  shows "seg (swap_at xs i j) l r = swap_at (seg xs l r) (i - l) (j - l)"
  using assms by (intro nth_equalityI) (auto simp: nth_seg nth_swap_at)

lemma mset_seg_swap_at:
  assumes "l \<le> i" "i < r" "l \<le> j" "j < r" "r \<le> length xs"
  shows "mset (seg (swap_at xs i j) l r) = mset (seg xs l r)"
  using assms by (simp add: seg_swap_at)

lemma seg_split: "i \<le> j \<Longrightarrow> j \<le> k \<Longrightarrow> seg xs i k = seg xs i j @ seg xs j k"
proof -
  assume a: "i \<le> j" "j \<le> k"
  then have "k - i = (j - i) + (k - j)" by simp
  then have "take (k - i) (drop i xs) = take (j - i) (drop i xs) @ take (k - j) (drop (j - i) (drop i xs))"
    by (simp only: take_add)
  moreover have "drop (j - i) (drop i xs) = drop j xs" using a by simp
  ultimately show ?thesis by (simp add: seg_def)
qed

lemma seg_take: "j \<le> k \<Longrightarrow> seg (take k xs) i j = seg xs i j"
  by (cases "i \<le> j") (simp_all add: seg_def take_drop min_def)

lemma seg_drop: "k \<le> i \<Longrightarrow> seg (drop k xs) (i - k) (j - k) = seg xs i j"
  by (simp add: seg_def)

lemma frame_refl: "frame t t b e"
  by (simp add: frame_def)

lemma frame_trans: "frame t1 t2 b e \<Longrightarrow> frame t2 t3 b e \<Longrightarrow> frame t1 t3 b e"
  by (simp add: frame_def)

lemma frame_widen:
  assumes f: "frame t1 t2 b' e'" and "b \<le> b'" "b' \<le> e'" "e' \<le> e" "e \<le> length t1"
  shows "frame t1 t2 b e"
proof -
  from f have len: "length t2 = length t1" and tk: "take b' t2 = take b' t1"
    and dr: "drop e' t2 = drop e' t1" and ms: "mset (seg t2 b' e') = mset (seg t1 b' e')"
    by (simp_all add: frame_def)
  have "take b t2 = take b t1"
    using arg_cong [OF tk, of "take b"] assms(2) by (simp add: min_def)
  moreover have "drop e t2 = drop e t1"
    using arg_cong [OF dr, of "drop (e - e')"] assms(4) by simp
  moreover have "seg t2 b b' = seg t1 b b'"
    using seg_take [of b' b' t2 b] seg_take [of b' b' t1 b] tk by simp
  moreover have "seg t2 e' e = seg t1 e' e"
    using seg_drop [of e' e' t2 e] seg_drop [of e' e' t1 e] dr by simp
  moreover have "seg t2 b e = seg t2 b b' @ seg t2 b' e' @ seg t2 e' e"
    using assms(2-4) seg_split [of b b' e t2] seg_split [of b' e' e t2] by simp
  moreover have "seg t1 b e = seg t1 b b' @ seg t1 b' e' @ seg t1 e' e"
    using assms(2-4) seg_split [of b b' e t1] seg_split [of b' e' e t1] by simp
  ultimately show ?thesis using len ms by (simp add: frame_def)
qed

lemma frame_swap_at:
  "b \<le> i \<Longrightarrow> i < e \<Longrightarrow> b \<le> j \<Longrightarrow> j < e \<Longrightarrow> e \<le> length t \<Longrightarrow> frame t (swap_at t i j) b e"
  unfolding frame_def
  by (auto simp: mset_seg_swap_at intro!: nth_equalityI)

lemma seg_single: "p < length xs \<Longrightarrow> seg xs p (Suc p) = [xs ! p]"
  by (simp add: seg_def take_Suc_conv_app_nth Cons_nth_drop_Suc)

lemma frame_take_seg: "frame t t' b e \<Longrightarrow> j \<le> b \<Longrightarrow> seg t' i j = seg t i j"
  unfolding frame_def using seg_take [of j b t' i] seg_take [of j b t i] by simp

lemma frame_drop_seg: "frame t t' b e \<Longrightarrow> e \<le> i \<Longrightarrow> seg t' i j = seg t i j"
  unfolding frame_def using seg_drop [of e i t' j] seg_drop [of e i t j] by simp

lemma frame_set_seg: "frame t t' b e \<Longrightarrow> set (seg t' b e) = set (seg t b e)"
  unfolding frame_def by (metis set_mset_mset)

lemma frame_nth_below: "frame t t' b e \<Longrightarrow> k < b \<Longrightarrow> t' ! k = t ! k"
  unfolding frame_def by (metis nth_take)

lemma frame_nth_above: "frame t t' b e \<Longrightarrow> e \<le> k \<Longrightarrow> k < length t \<Longrightarrow> t' ! k = t ! k"
proof -
  assume f: "frame t t' b e" and k: "e \<le> k" "k < length t"
  then have "drop e t' ! (k - e) = drop e t ! (k - e)" by (simp add: frame_def)
  moreover have "length t' = length t" using f by (simp add: frame_def)
  ultimately show ?thesis using k nth_drop [of e t' "k - e"] nth_drop [of e t "k - e"] by simp
qed

lemma seg_all [simp]: "seg xs 0 (length xs) = xs"
  by (simp add: seg_def)

lemma list_all_mset_eq: "mset xs = mset ys \<Longrightarrow> list_all P ys \<Longrightarrow> list_all P xs"
  by (simp add: list_all_iff flip: set_mset_mset)

lemma sint_small:
  assumes "unat (w :: u32) < 2 ^ 31"
  shows "sint w = int (unat w)"
proof -
  have u: "uint w = int (unat w)" by (rule uint_nat)
  have s: "sint w = signed_take_bit 31 (uint w)" using sint_uint [of w] by simp
  have "int (unat w) < int (2 ^ 31)" using assms by (simp only: of_nat_less_iff)
  then have "uint w < 2 ^ 31" unfolding u by (simp only: of_nat_power of_nat_numeral)
  moreover have "- (2 ^ 31) \<le> uint w" by (rule order_trans [OF _ uint_ge_0]) simp
  ultimately have "signed_take_bit 31 (uint w) = uint w" by (rule signed_take_bit_int_eq_self [rotated])
  then show ?thesis using s u by (simp only:)
qed

end
