(* ===== verification/Reduction.thy ===== *)
theory Reduction
  imports Prelude
begin

text \<open>
  The reduction function \<open>reduce\<close> of \<open>src/unnamed/part_000\<close> (lines 88--104):
  a digest is folded into a 32-bit seed by XOR-ing its leading little-endian words
  (\<open>*hashInt\<close> on the x86 host), adding the trailing \<open>hashLen mod 4\<close> bytes read
  backwards as \<open>(chainEntry) hash[hashLen - 1 - i]\<close>, and XOR-ing the round index.
  \<open>hash\<close> is a \<open>char *\<close>, and \<open>char\<close> is signed on the x86 ABI the Makefile
  builds for, so a trailing byte is sign-extended to 32 bits (\<open>scast\<close>).
  The theory also holds \<open>reduce_spec\<close>, the reduction as section 4.C of the
  specification describes it (the byte added unsigned), to compare the two.
\<close>

text \<open>First loop: \<open>reduced ^= *hashInt\<close> for the \<open>hashLen / 4\<close> leading words.\<close>

definition xor_words :: "digest \<Rightarrow> nat \<Rightarrow> u32 \<Rightarrow> u32" where
  "xor_words h n acc = fold (\<lambda>i r. r XOR le32 (take 4 (drop (4 * i) h))) [0..<n] acc"

text \<open>Second loop: \<open>reduced += (chainEntry) hash[hashLen - 1 - i]\<close> for
  \<open>i < hashLen mod 4\<close>, the signed \<open>char\<close> widened by sign extension.\<close>

definition add_tail :: "digest \<Rightarrow> nat \<Rightarrow> u32 \<Rightarrow> u32" where
  "add_tail h len acc = fold (\<lambda>i r. r + scast (h ! (len - 1 - i))) [0..<len mod 4] acc"

definition reduce :: "digest \<Rightarrow> u32 \<Rightarrow> u32 \<Rightarrow> u32" where
  "reduce hash hashLen round =
     (let n = unat hashLen
      in add_tail hash n (xor_words hash (n div 4) 0) XOR round)"

text \<open>The reduction as the specification (section 4.C) states it: the trailing bytes
  are added as unsigned values.\<close>

definition reduce_spec :: "digest \<Rightarrow> u32 \<Rightarrow> u32 \<Rightarrow> u32" where
  "reduce_spec hash hashLen round =
     (let n = unat hashLen
      in fold (\<lambda>i r. r + ucast (hash ! (n - 1 - i))) [0..<n mod 4]
           (xor_words hash (n div 4) 0) XOR round)"

lemmas reduce_eval [eval_simps] = reduce_def reduce_spec_def xor_words_def add_tail_def le32_def

subsection \<open>Lemmas\<close>

text \<open>Both loops read only the first \<open>hashLen\<close> bytes of the buffer.\<close>

lemma xor_words_take:
  "4 * n \<le> m \<Longrightarrow> xor_words (take m h) n acc = xor_words h n acc"
proof -
  assume "4 * n \<le> m"
  then have "\<And>i. i \<in> set [0..<n] \<Longrightarrow> take 4 (drop (4 * i) (take m h)) = take 4 (drop (4 * i) h)"
    by (auto simp: take_drop min_def)
  then show ?thesis
    unfolding xor_words_def by (intro fold_cong) auto
qed

lemma add_tail_take:
  "len \<le> m \<Longrightarrow> len \<le> length h \<Longrightarrow> add_tail (take m h) len acc = add_tail h len acc"
  unfolding add_tail_def by (intro fold_cong) auto

lemma reduce_take:
  "unat len \<le> length h \<Longrightarrow> reduce (take (unat len) h) len r = reduce h len r"
  by (simp add: reduce_def xor_words_take add_tail_take)

text \<open>Two buffers that agree on their first \<open>hashLen\<close> bytes (as \<open>memcmp\<close> sees them)
  reduce to the same seed in every round.\<close>

lemma reduce_memcmp_eq:
  assumes "memcmp_eq len a b" "unat len \<le> length a" "unat len \<le> length b"
  shows "reduce a len r = reduce b len r"
proof -
  have "reduce a len r = reduce (take (unat len) a) len r"
    using assms(2) by (simp add: reduce_take)
  also have "\<dots> = reduce (take (unat len) b) len r"
    using assms(1) by (simp add: memcmp_eq_def)
  also have "\<dots> = reduce b len r"
    using assms(3) by (simp add: reduce_take)
  finally show ?thesis .
qed

text \<open>On a four-byte digest the reduction is the stored word salted with the round.\<close>

lemma reduce_le_bytes32: "reduce (le_bytes32 w) 4 r = w XOR r"
  by (simp add: reduce_def xor_words_def add_tail_def le32_le_bytes32)

lemma reduce_xor_round: "reduce h len r = reduce h len 0 XOR r"
  by (simp add: reduce_def Let_def)

subsection \<open>Properties\<close>




text \<open>C28: The round index salts the reduction injectively: one digest reduced in two
  different rounds of a chain gives two different seeds.\<close>

theorem reduce_round_inj: "reduce h len r1 = reduce h len r2 \<longleftrightarrow> r1 = r2"
proof
  assume "reduce h len r1 = reduce h len r2"
  then have "reduce h len 0 XOR r1 = reduce h len 0 XOR r2"
    by (simp only: reduce_xor_round [of h len r1] reduce_xor_round [of h len r2])
  then show "r1 = r2" by (metis bit.xor_left_self)
qed simp

end
