(* ===== verification/Rand.thy ===== *)
theory Rand
  imports Prelude
begin

text \<open>
  The complementary multiply-with-carry generator of \<open>src/snowflake/rand.c\<close>
  (lines 1--77) that picks chain start points.  Its module-level state
  (\<open>Q[4096]\<close>, the carry \<open>c\<close>, the function-static index \<open>i\<close> of
  \<open>rand_cmwc\<close> and the flag \<open>seeded\<close>) is the record \<open>cmwc_state\<close>;
  \<open>srand_cmwc\<close>, \<open>custom_seed\<close> and \<open>rand_cmwc\<close> are state-passing
  functions.  The clock read by \<open>gettimeofday\<close> is an argument (\<open>timeval\<close>):
  it is consulted only on the first call.  \<open>rand_cmwc_r\<close> takes the module
  mutex around \<open>rand_cmwc\<close>; in the models of the worker pools a call is one
  atomic step.  The 64-bit intermediate \<open>t\<close> is a \<open>64 word\<close>, so a wrap-around
  would be visible; the lemmas show it cannot happen and bound the carry.
\<close>

record cmwc_state =
  Q :: "u32 list"
  c :: u32
  rand_i :: u32
  seeded :: bool

record timeval =
  tv_sec :: u64
  tv_usec :: u64

definition PHI :: u32 where
  "PHI = 0x9e3779b9"

text \<open>The static initialisers: \<open>Q\<close> zero, \<open>c = 362436\<close>, \<open>seeded = 0\<close>, and
  \<open>static uint32_t i = 4095\<close>.\<close>

definition cmwc_init :: cmwc_state where
  "cmwc_init = \<lparr>Q = replicate 4096 0, c = 362436, rand_i = 4095, seeded = False\<rparr>"

text \<open>The loop of \<open>srand_cmwc\<close>: \<open>Q[i] = Q[i - 3] ^ Q[i - 2] ^ PHI ^ i\<close>.\<close>

definition srand_fill :: "u32 list \<Rightarrow> u32 list" where
  "srand_fill q = fold (\<lambda>i q. q[i := q ! (i - 3) XOR q ! (i - 2) XOR PHI XOR of_nat i]) [3..<4096] q"

definition srand_cmwc :: "u32 \<Rightarrow> cmwc_state \<Rightarrow> cmwc_state" where
  "srand_cmwc x s = s\<lparr>Q := srand_fill ((Q s)[0 := x, 1 := x + PHI, 2 := x + PHI + PHI])\<rparr>"

text \<open>\<open>srand_cmwc(tv.tv_sec ^ tv.tv_usec)\<close>: the XOR of the two 64-bit fields,
  truncated to the \<open>uint32_t\<close> parameter.\<close>

definition custom_seed :: "timeval \<Rightarrow> cmwc_state \<Rightarrow> cmwc_state" where
  "custom_seed tv s = (srand_cmwc (ucast (tv_sec tv XOR tv_usec tv)) s)\<lparr>seeded := True\<rparr>"

text \<open>One step: \<open>t = a * Q[i] + c\<close> in 64 bits, \<open>c = t >> 32\<close>,
  \<open>x = t + c\<close> in 32 bits, the carry correction, \<open>Q[i] = r - x\<close>.\<close>

definition cmwc_step :: "cmwc_state \<Rightarrow> u32 \<times> cmwc_state" where
  "cmwc_step s =
     (let i' = (rand_i s + 1) AND 4095;
          t = (18782 :: u64) * ucast (Q s ! unat i') + ucast (c s);
          c1 = (ucast (drop_bit 32 t) :: u32);
          x1 = (ucast t :: u32) + c1;
          (x, c2) = (if x1 < c1 then (x1 + 1, c1 + 1) else (x1, c1));
          q = 0xfffffffe - x
      in (q, s\<lparr>Q := (Q s)[unat i' := q], c := c2, rand_i := i'\<rparr>))"

definition rand_cmwc :: "timeval \<Rightarrow> cmwc_state \<Rightarrow> u32 \<times> cmwc_state" where
  "rand_cmwc tv s = cmwc_step (if seeded s then s else custom_seed tv s)"

text \<open>\<open>rand_cmwc_r\<close>: the same step under the module mutex.\<close>

definition rand_cmwc_r :: "timeval \<Rightarrow> cmwc_state \<Rightarrow> u32 \<times> cmwc_state" where
  "rand_cmwc_r tv s = rand_cmwc tv s"

text \<open>Well-formedness of the generator state: the lag table has its 4096 words and
  the index stays inside it.\<close>

definition cmwc_wf :: "cmwc_state \<Rightarrow> bool" where
  "cmwc_wf s \<longleftrightarrow> length (Q s) = 4096 \<and> unat (rand_i s) < 4096"

subsection \<open>Lemmas\<close>

lemma length_srand_fill [simp]: "length (srand_fill q) = length q"
  unfolding srand_fill_def by (rule length_fold_update)

lemma custom_seed_Q_length [simp]: "length (Q (custom_seed tv s)) = length (Q s)"
  by (simp add: custom_seed_def srand_cmwc_def)

lemma custom_seed_idx [simp]: "rand_i (custom_seed tv s) = rand_i s"
  by (simp add: custom_seed_def srand_cmwc_def)

text \<open>The 64-bit product-plus-carry never wraps: it is the exact natural number.\<close>

lemma cmwc_t_exact:
  "unat ((18782 :: u64) * ucast (q :: u32) + ucast (cc :: u32)) = 18782 * unat q + unat cc"
proof -
  have q: "unat q < 2 ^ 32" and cc: "unat cc < 2 ^ 32"
    using unat_u32_less [of q] unat_u32_less [of cc] by simp_all
  have "18782 * unat q + unat cc < (2::nat) ^ 64" using q cc by simp
  moreover have "18782 * unat q < (2::nat) ^ 64" using q by simp
  ultimately show ?thesis
    by (simp add: unat_word_ariths)
qed

text \<open>\<open>t >> 32\<close> is at most the multiplier.\<close>

lemma cmwc_carry_le:
  "unat (drop_bit 32 ((18782 :: u64) * ucast (q :: u32) + ucast (cc :: u32))) \<le> 18782"
proof -
  have "unat q \<le> 2 ^ 32 - 1" and "unat cc \<le> 2 ^ 32 - 1"
    using unat_u32_less [of q] unat_u32_less [of cc] by simp_all
  then have "18782 * unat q + unat cc \<le> 18783 * (2 ^ 32 - 1)" by simp
  then have "(18782 * unat q + unat cc) div 2 ^ 32 \<le> 18783 * (2 ^ 32 - 1) div (2 ^ 32 :: nat)"
    by (rule div_le_mono)
  then show ?thesis by (simp add: drop_bit_eq_div unat_div cmwc_t_exact)
qed

lemma cmwc_carry_u32:
  "unat (ucast (drop_bit 32 ((18782 :: u64) * ucast (q :: u32) + ucast (cc :: u32))) :: u32) \<le> 18782"
  using cmwc_carry_le [of q cc] by (simp add: unat_ucast_u64_u32)

lemma cmwc_step_wf: "length (Q s) = 4096 \<Longrightarrow> cmwc_wf (snd (cmwc_step s))"
  by (simp add: cmwc_step_def cmwc_wf_def Let_def unat_and_4095 split: prod.splits)

lemma cmwc_step_carry: "unat (c (snd (cmwc_step s))) \<le> 18783"
proof -
  define i' where "i' = (rand_i s + 1) AND 4095"
  define c1 where "c1 = (ucast (drop_bit 32 ((18782 :: u64) * ucast (Q s ! unat i') + ucast (c s))) :: u32)"
  have c1: "unat c1 \<le> 18782" unfolding c1_def by (rule cmwc_carry_u32)
  then have "unat (c1 + 1) = unat c1 + 1"
    by (simp add: unat_word_ariths)
  with c1 show ?thesis
    by (simp add: cmwc_step_def Let_def flip: i'_def c1_def split: prod.splits)
qed

subsection \<open>Properties\<close>

text \<open>C29: Every call of \<open>rand_cmwc\<close> keeps the generator state well formed: the lag
  table keeps its 4096 words and the index stays below 4096, so \<open>Q[i]\<close> is always
  in range.\<close>

theorem rand_cmwc_wf: "cmwc_wf s \<Longrightarrow> cmwc_wf (snd (rand_cmwc tv s))"
proof -
  assume "cmwc_wf s"
  then have "length (Q (if seeded s then s else custom_seed tv s)) = 4096"
    by (simp add: cmwc_wf_def)
  then show ?thesis unfolding rand_cmwc_def by (rule cmwc_step_wf)
qed

theorem rand_cmwc_wf_witness:
  "cmwc_wf cmwc_init \<and> cmwc_wf (snd (rand_cmwc \<lparr>tv_sec = 0, tv_usec = 0\<rparr> cmwc_init))"
proof -
  have h: "cmwc_wf cmwc_init" by (simp add: cmwc_wf_def cmwc_init_def)
  show ?thesis using h rand_cmwc_wf [OF h] by blast
qed

text \<open>C30: The carry stays bounded: after any call it is at most 18783 (the multiplier
  plus the correction), whatever the state before, including the initial carry
  362436; and the 64-bit intermediate \<open>a * Q[i] + c\<close> is the exact product, never
  wrapped.\<close>

theorem rand_cmwc_carry_bound:
  "unat (c (snd (rand_cmwc tv s))) \<le> 18783
   \<and> unat ((18782 :: u64) * ucast (q :: u32) + ucast (cc :: u32)) = 18782 * unat q + unat cc"
  by (simp add: rand_cmwc_def cmwc_step_carry cmwc_t_exact)

end
