(* ===== verification/Chain.thy ===== *)
theory Chain
  imports Reduction Rand
begin

text \<open>
  Chains of \<open>src/unnamed/part_000\<close>: the record \<open>chain\<close> (lines 56--59), the
  walk of \<open>generateChain\<close> (lines 173--189), which draws a start point from
  \<open>rand_cmwc_r\<close> and alternates the hash with \<open>reduce\<close> for rounds
  \<open>0 .. chainLen - 1\<close>, and \<open>regenerateChain\<close> (lines 427--445), which walks a
  chain again and stops at the first seed whose digest \<open>memcmp\<close>-equals the
  target.  The loop counters are natural numbers; \<open>regenerateChain\<close> counts with an
  \<open>int\<close> and the model is exact for \<open>chainLen \<le> 2^31\<close>.
  \<open>id_hash\<close> is a four-byte identity digest used only to evaluate the models on
  concrete inputs.
\<close>

record chain =
  startpoint :: u32
  endpoint :: u32

text \<open>\<open>for (; i < chainLen; i++) tmp = reduce(hash(tmp, buf), hashLen, i)\<close>, started
  at round \<open>i\<close> for \<open>n\<close> rounds.\<close>

primrec chain_walk :: "hash_fn \<Rightarrow> u32 \<Rightarrow> nat \<Rightarrow> nat \<Rightarrow> u32 \<Rightarrow> u32" where
  "chain_walk hash hashLen i 0 tmp = tmp"
| "chain_walk hash hashLen i (Suc n) tmp =
     chain_walk hash hashLen (Suc i) n (reduce (hash tmp) hashLen (of_nat i))"

definition generateChain ::
  "hash_fn \<Rightarrow> u32 \<Rightarrow> u32 \<Rightarrow> timeval \<Rightarrow> cmwc_state \<Rightarrow> chain \<times> cmwc_state" where
  "generateChain hash chainLen hashLen tv rs =
     (let (s, rs') = rand_cmwc_r tv rs
      in (\<lparr>startpoint = s, endpoint = chain_walk hash hashLen 0 (unat chainLen) s\<rparr>, rs'))"

text \<open>The loop of \<open>regenerateChain\<close>: compare the digest of the current seed with
  the target before reducing it.\<close>

fun regen_loop :: "hash_fn \<Rightarrow> u32 \<Rightarrow> digest \<Rightarrow> nat \<Rightarrow> nat \<Rightarrow> u32 \<Rightarrow> u32 option" where
  "regen_loop hashFunc hashLen targetHash i 0 tmp = None"
| "regen_loop hashFunc hashLen targetHash i (Suc n) tmp =
     (if memcmp_eq hashLen (hashFunc tmp) targetHash then Some tmp
      else regen_loop hashFunc hashLen targetHash (Suc i) n (reduce (hashFunc tmp) hashLen (of_nat i)))"

definition regenerateChain :: "u32 \<Rightarrow> u32 \<Rightarrow> hash_fn \<Rightarrow> u32 \<Rightarrow> digest \<Rightarrow> u32 option" where
  "regenerateChain startpt chainLen hashFunc hashLen targetHash =
     regen_loop hashFunc hashLen targetHash 0 (unat chainLen) startpt"

definition id_hash :: hash_fn where
  "id_hash s = le_bytes32 s"

lemmas chain_eval [eval_simps] = regenerateChain_def generateChain_def id_hash_def

subsection \<open>Lemmas\<close>

lemma chain_walk_add:
  "chain_walk H len i (m + n) x = chain_walk H len (i + m) n (chain_walk H len i m x)"
  by (induction m arbitrary: i x) simp_all

lemma chain_walk_Suc_right:
  "chain_walk H len i (Suc m) x = reduce (H (chain_walk H len i m x)) len (of_nat (i + m))"
  using chain_walk_add [of H len i m 1 x] by simp

text \<open>What \<open>regen_loop\<close> returns: the first seed of the walk whose digest matches.\<close>

definition first_match :: "hash_fn \<Rightarrow> u32 \<Rightarrow> digest \<Rightarrow> nat \<Rightarrow> u32 \<Rightarrow> nat \<Rightarrow> bool" where
  "first_match H len tg i x k \<longleftrightarrow>
     memcmp_eq len (H (chain_walk H len i k x)) tg
     \<and> (\<forall>j < k. \<not> memcmp_eq len (H (chain_walk H len i j x)) tg)"

lemma first_match_0: "first_match H len tg i x 0 \<longleftrightarrow> memcmp_eq len (H x) tg"
  by (simp add: first_match_def)

lemma first_match_Suc:
  "first_match H len tg i x (Suc k) \<longleftrightarrow>
     \<not> memcmp_eq len (H x) tg \<and> first_match H len tg (Suc i) (reduce (H x) len (of_nat i)) k"
  by (auto simp: first_match_def less_Suc_eq_0_disj)

lemma regen_loop_Some_iff:
  "regen_loop H len tg i n x = Some s \<longleftrightarrow>
     (\<exists>k < n. first_match H len tg i x k \<and> s = chain_walk H len i k x)"
proof (induction n arbitrary: i x)
  case 0
  then show ?case by simp
next
  case (Suc n)
  show ?case
  proof (cases "memcmp_eq len (H x) tg")
    case True
    then have "first_match H len tg i x k \<longleftrightarrow> k = 0" for k
      by (cases k) (auto simp: first_match_0 first_match_Suc)
    with True show ?thesis by auto
  next
    case False
    then have "(\<exists>k < Suc n. first_match H len tg i x k \<and> s = chain_walk H len i k x) \<longleftrightarrow>
      (\<exists>k < n. first_match H len tg (Suc i) (reduce (H x) len (of_nat i)) k
         \<and> s = chain_walk H len (Suc i) k (reduce (H x) len (of_nat i)))"
      by (auto simp: first_match_0 first_match_Suc less_Suc_eq_0_disj)
    with False Suc.IH show ?thesis by simp
  qed
qed

lemma regen_loop_None_iff:
  "regen_loop H len tg i n x = None \<longleftrightarrow>
     (\<forall>k < n. \<not> memcmp_eq len (H (chain_walk H len i k x)) tg)"
proof (induction n arbitrary: i x)
  case 0
  then show ?case by simp
next
  case (Suc n)
  then show ?case by (auto simp: less_Suc_eq_0_disj)
qed

text \<open>With \<open>id_hash\<close> two digests compare equal exactly when the seeds are equal.\<close>

lemma memcmp_eq_le_bytes32 [simp]: "memcmp_eq 4 (le_bytes32 a) (le_bytes32 b) \<longleftrightarrow> a = b"
proof
  assume "memcmp_eq 4 (le_bytes32 a) (le_bytes32 b)"
  then have "le_bytes32 a = le_bytes32 b" by (simp add: memcmp_eq_def)
  then show "a = b" by (metis le32_le_bytes32)
qed simp

lemma regen_loop_sound: "regen_loop H len tg i n x = Some s \<Longrightarrow> memcmp_eq len (H s) tg"
  by (auto simp: regen_loop_Some_iff first_match_def)

subsection \<open>Properties\<close>

text \<open>C5: \<open>regenerateChain\<close> walks the chain from its start point and returns the
  first seed of the chain (at a position below \<open>chainLen\<close>) whose digest equals the
  target on \<open>hashLen\<close> bytes; it reports a false positive (\<open>None\<close>) exactly when no
  seed of the chain has the target digest.\<close>

theorem regenerateChain_correct:
  "(regenerateChain st chainLen H len tg = Some s \<longleftrightarrow>
      (\<exists>k < unat chainLen. first_match H len tg 0 st k \<and> s = chain_walk H len 0 k st))
   \<and> (regenerateChain st chainLen H len tg = None \<longleftrightarrow>
      (\<forall>k < unat chainLen. \<not> memcmp_eq len (H (chain_walk H len 0 k st)) tg))"
  by (simp add: regenerateChain_def regen_loop_Some_iff regen_loop_None_iff)

theorem regenerateChain_correct_witness:
  "regenerateChain 5 3 id_hash 4 (le_bytes32 4) = Some 4 \<and> chain_walk id_hash 4 0 2 5 = 4
   \<and> regenerateChain 5 1 id_hash 4 (le_bytes32 4) = None"
proof -
  have w: "chain_walk id_hash 4 0 2 5 = 4"
    by (simp add: numeral_2_eq_2 id_hash_def reduce_le_bytes32)
  have m: "first_match id_hash 4 (le_bytes32 4) 0 5 2"
    unfolding first_match_def id_hash_def
    by (simp add: numeral_2_eq_2 less_Suc_eq reduce_le_bytes32)
  have "\<exists>k < unat (3::u32). first_match id_hash 4 (le_bytes32 4) 0 5 k \<and> 4 = chain_walk id_hash 4 0 k 5"
    using m w by (intro exI [of _ 2]) simp
  moreover have "\<forall>k < unat (1::u32). \<not> memcmp_eq 4 (id_hash (chain_walk id_hash 4 0 k 5)) (le_bytes32 4)"
    by (simp add: id_hash_def)
  ultimately show ?thesis
    using regenerateChain_correct [of 5 3 id_hash 4 "le_bytes32 4" 4]
      regenerateChain_correct [of 5 1 id_hash 4 "le_bytes32 4"] m w by blast
qed

end
