(* ===== verification/Pool.thy ===== *)
theory Pool
  imports Chain
begin

text \<open>
  The table generator of \<open>src/unnamed/part_000\<close>: \<open>chainGenerationWorker\<close>
  (lines 197--224) and \<open>createRainbowTable\<close> (lines 231--289).  One worker thread per
  processor generates its share of chains in buckets of \<open>WORKER_BUFFER_SIZE\<close> and
  appends each bucket to the table file under the global mutex.  The threads
  interleave, so the pool is a step relation \<open>pool_step\<close> on a global state: the
  shared generator state (whose \<open>rand_cmwc_r\<close> takes its own mutex, one atomic step),
  the file contents, and per worker its bucket index \<open>i\<close>, its bucket buffer and its
  status.  A step is one worker generating one chain (the clock it reads is any
  \<open>timeval\<close>), writing its full bucket (\<open>fwrite\<close> succeeds, or fails after writing
  a prefix of the bucket), or leaving its loop.
\<close>

definition WORKER_BUFFER_SIZE :: nat where "WORKER_BUFFER_SIZE = 8192"

text \<open>\<open>chainsLeft\<close> of bucket \<open>i\<close> for a worker with \<open>n\<close> chains to make.\<close>

definition chains_left :: "nat \<Rightarrow> nat \<Rightarrow> nat" where
  "chains_left n i = (if i < n div WORKER_BUFFER_SIZE then WORKER_BUFFER_SIZE else n mod WORKER_BUFFER_SIZE)"

datatype wstatus = Running | Finished | Failed

record worker =
  w_todo :: nat
  w_i :: nat
  w_buf :: "chain list"
  w_status :: wstatus

record pool =
  rng :: cmwc_state
  table_file :: "chain list"
  workers :: "worker list"

text \<open>A worker as \<open>pthread_create\<close> starts it on \<open>args[i]\<close>.\<close>

definition new_worker :: "u32 \<Rightarrow> worker" where
  "new_worker n = \<lparr>w_todo = unat n, w_i = 0, w_buf = [], w_status = Running\<rparr>"

text \<open>The loop \<open>for (i = 0; i < data->chainNum / WORKER_BUFFER_SIZE + 1; i++)\<close>:
  one chain into the bucket (\<open>gen\<close>), the bucket to the file (\<open>write_ok\<close>, or
  \<open>write_fail\<close> when \<open>fwrite\<close> returns a short count after writing \<open>m\<close> records,
  and the thread returns \<open>-1\<close>), the loop left (\<open>finish\<close>, return \<open>0\<close>).\<close>

inductive pool_step :: "hash_fn \<Rightarrow> u32 \<Rightarrow> u32 \<Rightarrow> pool \<Rightarrow> pool \<Rightarrow> bool"
  for H :: hash_fn and chainLen :: u32 and hashLen :: u32 where
  gen: "k < length (workers s) \<Longrightarrow> w = workers s ! k \<Longrightarrow> w_status w = Running \<Longrightarrow>
    w_i w \<le> w_todo w div WORKER_BUFFER_SIZE \<Longrightarrow> length (w_buf w) < chains_left (w_todo w) (w_i w) \<Longrightarrow>
    generateChain H chainLen hashLen tv (rng s) = (ch, g') \<Longrightarrow>
    pool_step H chainLen hashLen s
      (s\<lparr>rng := g', workers := (workers s)[k := w\<lparr>w_buf := w_buf w @ [ch]\<rparr>]\<rparr>)"
| write_ok: "k < length (workers s) \<Longrightarrow> w = workers s ! k \<Longrightarrow> w_status w = Running \<Longrightarrow>
    w_i w \<le> w_todo w div WORKER_BUFFER_SIZE \<Longrightarrow> length (w_buf w) = chains_left (w_todo w) (w_i w) \<Longrightarrow>
    pool_step H chainLen hashLen s
      (s\<lparr>table_file := table_file s @ w_buf w, workers := (workers s)[k := w\<lparr>w_i := w_i w + 1, w_buf := []\<rparr>]\<rparr>)"
| write_fail: "k < length (workers s) \<Longrightarrow> w = workers s ! k \<Longrightarrow> w_status w = Running \<Longrightarrow>
    w_i w \<le> w_todo w div WORKER_BUFFER_SIZE \<Longrightarrow> length (w_buf w) = chains_left (w_todo w) (w_i w) \<Longrightarrow>
    m < length (w_buf w) \<Longrightarrow>
    pool_step H chainLen hashLen s
      (s\<lparr>table_file := table_file s @ take m (w_buf w), workers := (workers s)[k := w\<lparr>w_status := Failed\<rparr>]\<rparr>)"
| finish: "k < length (workers s) \<Longrightarrow> w = workers s ! k \<Longrightarrow> w_status w = Running \<Longrightarrow>
    w_todo w div WORKER_BUFFER_SIZE < w_i w \<Longrightarrow>
    pool_step H chainLen hashLen s (s\<lparr>workers := (workers s)[k := w\<lparr>w_status := Finished\<rparr>]\<rparr>)"

inductive_cases pool_stepE: "pool_step H chainLen hashLen s s'"

text \<open>What \<open>pthread_join\<close> collects: \<open>status |= (int)ret\<close> over the workers, \<open>ret\<close>
  being \<open>0\<close> for a worker that left its loop and \<open>-1\<close> for one whose write failed.\<close>

definition worker_ret :: "worker \<Rightarrow> int" where
  "worker_ret w = (if w_status w = Failed then -1 else 0)"

definition join_status :: "worker list \<Rightarrow> int" where
  "join_status ws = fold (\<lambda>w st. st OR worker_ret w) ws 0"

text \<open>The environment of \<open>createRainbowTable\<close>: whether \<open>fopen\<close> and the two
  \<open>malloc\<close> calls succeed, and what \<open>sysconf(_SC_NPROCESSORS_ONLN)\<close> returns.\<close>

record rt_env =
  open_ok :: bool
  nprocs :: int
  tid_alloc_ok :: bool
  args_alloc_ok :: bool

text \<open>\<open>threadNum = conf\<close> converts the \<open>long\<close> to \<open>unsigned int\<close>.\<close>

definition threadNum_of :: "int \<Rightarrow> u32" where
  "threadNum_of conf = (if conf \<le> 0 then 1 else word_of_int conf)"

text \<open>\<open>args[i].chainNum\<close>: an equal share, the last worker also takes the remainder.\<close>

definition worker_args :: "u32 \<Rightarrow> u32 \<Rightarrow> u32 list" where
  "worker_args chainNum threadNum =
     map (\<lambda>i. if of_nat i < threadNum - 1 then chainNum div threadNum
              else chainNum div threadNum + chainNum mod threadNum) [0..<unat threadNum]"

definition createRainbowTable_start :: "rt_env \<Rightarrow> cmwc_state \<Rightarrow> u32 \<Rightarrow> error + pool" where
  "createRainbowTable_start env g chainNum =
     (if \<not> open_ok env then Inl (IoError OpOpen)
      else if \<not> tid_alloc_ok env then Inl AllocFailure
      else if \<not> args_alloc_ok env then Inl AllocFailure
      else Inr \<lparr>rng = g, table_file = [],
                 workers = map new_worker (worker_args chainNum (threadNum_of (nprocs env)))\<rparr>)"

text \<open>\<open>createRainbowTable\<close>: its return value and the contents of the table file
  (\<open>None\<close>: the file could not be opened), after every worker has been joined.\<close>

inductive createRainbowTable ::
  "rt_env \<Rightarrow> cmwc_state \<Rightarrow> u32 \<Rightarrow> u32 \<Rightarrow> hash_fn \<Rightarrow> u32 \<Rightarrow> int \<Rightarrow> chain list option \<Rightarrow> bool"
  for env g chainNum chainLen H hashLen where
  open_fail: "\<not> open_ok env \<Longrightarrow> createRainbowTable env g chainNum chainLen H hashLen (-1) None"
| alloc_fail: "open_ok env \<Longrightarrow> createRainbowTable_start env g chainNum = Inl e \<Longrightarrow>
    createRainbowTable env g chainNum chainLen H hashLen (-1) (Some [])"
| joined: "createRainbowTable_start env g chainNum = Inr s0 \<Longrightarrow> (pool_step H chainLen hashLen)\<^sup>*\<^sup>* s0 s \<Longrightarrow>
    list_all (\<lambda>w. w_status w \<noteq> Running) (workers s) \<Longrightarrow>
    createRainbowTable env g chainNum chainLen H hashLen
      (if join_status (workers s) \<noteq> 0 then -1 else 1) (Some (table_file s))"

text \<open>A chain of the table is genuine when its endpoint is the walk of its start point.\<close>

definition genuine :: "hash_fn \<Rightarrow> u32 \<Rightarrow> u32 \<Rightarrow> chain \<Rightarrow> bool" where
  "genuine H chainLen hashLen ch \<longleftrightarrow> endpoint ch = chain_walk H hashLen 0 (unat chainLen) (startpoint ch)"

text \<open>The chains a worker has written: its full buckets.\<close>

definition written :: "worker \<Rightarrow> nat" where
  "written w = sum_list (map (chains_left (w_todo w)) [0..<w_i w])"

definition worker_inv :: "hash_fn \<Rightarrow> u32 \<Rightarrow> u32 \<Rightarrow> worker \<Rightarrow> bool" where
  "worker_inv H chainLen hashLen w \<longleftrightarrow>
     list_all (genuine H chainLen hashLen) (w_buf w)
     \<and> length (w_buf w) \<le> chains_left (w_todo w) (w_i w)
     \<and> (w_status w = Running \<longrightarrow> w_i w \<le> w_todo w div WORKER_BUFFER_SIZE + 1)
     \<and> (w_status w = Finished \<longrightarrow> w_i w = w_todo w div WORKER_BUFFER_SIZE + 1)"

definition pool_inv :: "hash_fn \<Rightarrow> u32 \<Rightarrow> u32 \<Rightarrow> pool \<Rightarrow> bool" where
  "pool_inv H chainLen hashLen s \<longleftrightarrow>
     list_all (genuine H chainLen hashLen) (table_file s)
     \<and> list_all (worker_inv H chainLen hashLen) (workers s)
     \<and> (list_all (\<lambda>w. w_status w \<noteq> Failed) (workers s) \<longrightarrow>
          length (table_file s) = sum_list (map written (workers s)))"

text \<open>Work left: a bound on the steps a worker can still take.\<close>

definition worker_measure :: "worker \<Rightarrow> nat" where
  "worker_measure w =
     (if w_status w = Running
      then (w_todo w div WORKER_BUFFER_SIZE + 2 - w_i w) * (WORKER_BUFFER_SIZE + 2) - length (w_buf w)
      else 0)"

definition pool_measure :: "pool \<Rightarrow> nat" where
  "pool_measure s = sum_list (map worker_measure (workers s))"

text \<open>A machine with one processor on which every call succeeds, to run the model.\<close>

definition pool_env1 :: rt_env where
  "pool_env1 = \<lparr>open_ok = True, nprocs = 1, tid_alloc_ok = True, args_alloc_ok = True\<rparr>"

subsection \<open>Lemmas\<close>

lemma chains_left_le: "chains_left n i \<le> WORKER_BUFFER_SIZE"
  by (simp add: chains_left_def WORKER_BUFFER_SIZE_def)

text \<open>The buckets of a worker add up to its share.\<close>

lemma sum_chains_left: "sum_list (map (chains_left n) [0..<n div WORKER_BUFFER_SIZE + 1]) = n"
proof -
  let ?B = WORKER_BUFFER_SIZE
  have "map (chains_left n) [0..<n div ?B] = replicate (n div ?B) ?B"
    by (simp add: chains_left_def map_replicate_trivial [symmetric] list_eq_iff_nth_eq)
  then have "sum_list (map (chains_left n) [0..<n div ?B]) = n div ?B * ?B"
    by (simp add: sum_list_replicate)
  moreover have "chains_left n (n div ?B) = n mod ?B" by (simp add: chains_left_def)
  ultimately show ?thesis by simp
qed

lemma generateChain_genuine:
  "generateChain H chainLen hashLen tv g = (ch, g') \<Longrightarrow> genuine H chainLen hashLen ch"
  by (auto simp: generateChain_def genuine_def split: prod.splits)

lemma sum_list_update_nat:
  "k < length xs \<Longrightarrow> sum_list (xs[k := x]) + xs ! k = sum_list xs + (x :: nat)"
proof (induction xs arbitrary: k)
  case Nil
  then show ?case by simp
next
  case (Cons y ys)
  then show ?case by (cases k) auto
qed

lemma list_all_update [intro]: "list_all P xs \<Longrightarrow> P x \<Longrightarrow> list_all P (xs[k := x])"
  by (simp add: list_all_iff) (metis insert_iff set_update_subset_insert subsetD)

lemma list_all_nth: "list_all P xs \<Longrightarrow> k < length xs \<Longrightarrow> P (xs ! k)"
  by (simp add: list_all_length)

lemma written_next: "written (w\<lparr>w_i := w_i w + 1, w_buf := []\<rparr>) = written w + chains_left (w_todo w) (w_i w)"
  by (simp add: written_def)

lemmas pool_simps = pool_inv_def worker_inv_def

lemma list_all_update_same:
  "k < length xs \<Longrightarrow> P x = P (xs ! k) \<Longrightarrow> list_all P (xs[k := x]) = list_all P xs"
  by (auto simp: list_all_length nth_list_update)

lemma sum_map_update:
  "k < length xs \<Longrightarrow> sum_list (map f (xs[k := x])) + f (xs ! k) = sum_list (map f xs) + (f x :: nat)"
  using sum_list_update_nat [of k "map f xs" "f x"] by (simp add: map_update)

lemma pool_step_inv:
  assumes "pool_step H chainLen hashLen s s'" "pool_inv H chainLen hashLen s"
  shows "pool_inv H chainLen hashLen s'"
  using assms(1)
proof (cases rule: pool_step.cases)
  case (gen k w tv ch g')
  have wi: "worker_inv H chainLen hashLen w"
    using gen assms(2) by (auto simp: pool_inv_def dest: list_all_nth)
  let ?w' = "w\<lparr>w_buf := w_buf w @ [ch]\<rparr>"
  have "worker_inv H chainLen hashLen ?w'"
    using wi gen generateChain_genuine [OF gen(7)] by (simp add: worker_inv_def)
  moreover have "sum_list (map written ((workers s)[k := ?w'])) = sum_list (map written (workers s))"
    using sum_map_update [of k "workers s" written ?w'] gen by (simp add: written_def)
  moreover have "list_all (\<lambda>w. w_status w \<noteq> Failed) ((workers s)[k := ?w']) =
    list_all (\<lambda>w. w_status w \<noteq> Failed) (workers s)"
    using gen by (intro list_all_update_same) simp_all
  ultimately show ?thesis using gen assms(2) by (auto simp: pool_inv_def)
next
  case (write_ok k w)
  have wi: "worker_inv H chainLen hashLen w"
    using write_ok assms(2) by (auto simp: pool_inv_def dest: list_all_nth)
  let ?w' = "w\<lparr>w_i := w_i w + 1, w_buf := []\<rparr>"
  have "worker_inv H chainLen hashLen ?w'"
    using wi write_ok by (simp add: worker_inv_def)
  moreover have "sum_list (map written ((workers s)[k := ?w'])) = sum_list (map written (workers s)) + length (w_buf w)"
    using sum_map_update [of k "workers s" written ?w'] written_next [of w] write_ok by simp
  moreover have "list_all (\<lambda>w. w_status w \<noteq> Failed) ((workers s)[k := ?w']) =
    list_all (\<lambda>w. w_status w \<noteq> Failed) (workers s)"
    using write_ok by (intro list_all_update_same) simp_all
  moreover have "list_all (genuine H chainLen hashLen) (w_buf w)"
    using wi by (simp add: worker_inv_def)
  ultimately show ?thesis using write_ok assms(2) by (auto simp: pool_inv_def)
next
  case (write_fail k w m)
  have wi: "worker_inv H chainLen hashLen w"
    using write_fail assms(2) by (auto simp: pool_inv_def dest: list_all_nth)
  let ?w' = "w\<lparr>w_status := Failed\<rparr>"
  have "worker_inv H chainLen hashLen ?w'"
    using wi by (simp add: worker_inv_def)
  moreover have "\<not> list_all (\<lambda>w. w_status w \<noteq> Failed) ((workers s)[k := ?w'])"
    using write_fail by (auto simp: list_all_length intro!: exI [of _ k])
  moreover have "list_all (genuine H chainLen hashLen) (take m (w_buf w))"
    using wi by (auto simp: worker_inv_def list_all_iff dest: in_set_takeD)
  ultimately show ?thesis using write_fail assms(2) by (auto simp: pool_inv_def)
next
  case (finish k w)
  have wi: "worker_inv H chainLen hashLen w"
    using finish assms(2) by (auto simp: pool_inv_def dest: list_all_nth)
  let ?w' = "w\<lparr>w_status := Finished\<rparr>"
  have "worker_inv H chainLen hashLen ?w'"
    using wi finish by (simp add: worker_inv_def)
  moreover have "sum_list (map written ((workers s)[k := ?w'])) = sum_list (map written (workers s))"
    using sum_map_update [of k "workers s" written ?w'] finish by (simp add: written_def)
  moreover have "list_all (\<lambda>w. w_status w \<noteq> Failed) ((workers s)[k := ?w']) =
    list_all (\<lambda>w. w_status w \<noteq> Failed) (workers s)"
    using finish by (intro list_all_update_same) simp_all
  ultimately show ?thesis using finish assms(2) by (auto simp: pool_inv_def)
qed

lemma pool_inv_start:
  "createRainbowTable_start env g chainNum = Inr s0 \<Longrightarrow> pool_inv H chainLen hashLen s0"
  by (auto simp: createRainbowTable_start_def pool_inv_def worker_inv_def new_worker_def
      list_all_iff written_def split: if_splits)

lemma pool_reach_inv:
  "(pool_step H chainLen hashLen)\<^sup>*\<^sup>* s0 s \<Longrightarrow> pool_inv H chainLen hashLen s0 \<Longrightarrow> pool_inv H chainLen hashLen s"
  by (induction rule: rtranclp_induct) (auto intro: pool_step_inv)

text \<open>A worker that has left its loop without failing has written its whole share.\<close>

lemma written_finished:
  "worker_inv H chainLen hashLen w \<Longrightarrow> w_status w = Finished \<Longrightarrow> written w = w_todo w"
proof -
  assume "worker_inv H chainLen hashLen w" "w_status w = Finished"
  then have i: "w_i w = w_todo w div WORKER_BUFFER_SIZE + 1" by (simp add: worker_inv_def)
  show ?thesis unfolding written_def i by (rule sum_chains_left)
qed

lemma sum_written_finished:
  "list_all (worker_inv H chainLen hashLen) ws \<Longrightarrow> list_all (\<lambda>w. w_status w = Finished) ws \<Longrightarrow>
   sum_list (map written ws) = sum_list (map w_todo ws)"
  by (induction ws) (auto simp: written_finished)

lemma unat_div_add_mod:
  "unat ((n :: u32) div t + n mod t) = unat n div unat t + unat n mod unat t"
proof -
  have "unat n div unat t + unat n mod unat t \<le> unat n"
  proof (cases "unat t = 0")
    case False
    then have "unat n div unat t \<le> unat n div unat t * unat t" by simp
    then show ?thesis using div_mult_mod_eq [of "unat n" "unat t"] by linarith
  qed simp
  then have "unat n div unat t + unat n mod unat t < 2 ^ 32"
    using unat_u32_less [of n] by linarith
  then show ?thesis by (simp add: unat_word_ariths unat_div unat_mod)
qed

text \<open>The shares of the workers add up to \<open>chainNum\<close>.\<close>

lemma sum_worker_args:
  assumes "t \<noteq> 0"
  shows "sum_list (map unat (worker_args n t)) = unat n"
proof -
  have t1: "unat (t - 1) = unat t - 1" using assms by (simp add: unat_minus_one)
  have lt: "(of_nat i < t - 1) \<longleftrightarrow> i < unat t - 1" if "i < unat t" for i
  proof -
    have "i < 2 ^ 32" using that unat_u32_less [of t] by linarith
    then have "unat (of_nat i :: u32) = i" by simp
    then show ?thesis by (simp add: word_less_nat_alt t1)
  qed
  have "map unat (worker_args n t) =
    map (\<lambda>i. if i < unat t - 1 then unat n div unat t else unat n div unat t + unat n mod unat t) [0..<unat t]"
    using lt by (simp add: worker_args_def unat_div_add_mod unat_div)
  also have "[0..<unat t] = [0..<unat t - 1] @ [unat t - 1]"
    using assms by (metis Suc_pred' unat_gt_0 upt_Suc_append zero_le)
  moreover have "map (\<lambda>i. if i < unat t - 1 then unat n div unat t else unat n div unat t + unat n mod unat t)
      [0..<unat t - 1] = replicate (unat t - 1) (unat n div unat t)"
    by (simp add: list_eq_iff_nth_eq)
  ultimately have "sum_list (map unat (worker_args n t)) =
    (unat t - 1) * (unat n div unat t) + (unat n div unat t + unat n mod unat t)"
    by (simp add: sum_list_replicate del: upt_Suc)
  also have "\<dots> = unat t * (unat n div unat t) + unat n mod unat t"
  proof -
    obtain m where "unat t = Suc m" using assms by (metis unat_gt_0 gr0_implies_Suc)
    then show ?thesis by simp
  qed
  also have "\<dots> = unat n" by simp
  finally show ?thesis .
qed

lemma join_status_fold:
  "st \<in> {0, -1} \<Longrightarrow> fold (\<lambda>w st. st OR worker_ret w) ws st =
     (if st = 0 \<and> list_all (\<lambda>w. w_status w \<noteq> Failed) ws then 0 else -1)"
  by (induction ws arbitrary: st) (auto simp: worker_ret_def)

lemma join_status_iff:
  "join_status ws = (if list_all (\<lambda>w. w_status w \<noteq> Failed) ws then 0 else -1)"
  unfolding join_status_def by (simp add: join_status_fold)

lemma threadNum_of_nonzero: "conf < 2 ^ 32 \<Longrightarrow> threadNum_of conf \<noteq> 0"
proof (cases "conf \<le> 0")
  case False
  assume "conf < 2 ^ 32"
  with False have "uint (word_of_int conf :: u32) = conf"
    by (simp add: uint_word_of_int_eq take_bit_int_eq_self)
  with False show ?thesis by (auto simp: threadNum_of_def)
qed (simp add: threadNum_of_def)

text \<open>Each step uses up work: \<open>pool_measure\<close> strictly decreases.\<close>

lemma worker_step_measure:
  assumes "worker_inv H chainLen hashLen w" "w_status w = Running"
  shows "w_i w \<le> w_todo w div WORKER_BUFFER_SIZE \<Longrightarrow> length (w_buf w) < chains_left (w_todo w) (w_i w) \<Longrightarrow>
           worker_measure (w\<lparr>w_buf := w_buf w @ [ch]\<rparr>) < worker_measure w"
    and "w_i w \<le> w_todo w div WORKER_BUFFER_SIZE \<Longrightarrow>
           worker_measure (w\<lparr>w_i := w_i w + 1, w_buf := []\<rparr>) < worker_measure w"
    and "w_status w' \<noteq> Running \<Longrightarrow> worker_measure w' < worker_measure w"
proof -
  have len: "length (w_buf w) \<le> 8192" and i: "w_i w \<le> w_todo w div 8192 + 1"
    using assms chains_left_le [of "w_todo w" "w_i w"]
    by (simp_all add: worker_inv_def WORKER_BUFFER_SIZE_def)
  show "w_i w \<le> w_todo w div WORKER_BUFFER_SIZE \<Longrightarrow> length (w_buf w) < chains_left (w_todo w) (w_i w) \<Longrightarrow>
           worker_measure (w\<lparr>w_buf := w_buf w @ [ch]\<rparr>) < worker_measure w"
    using assms(2) len chains_left_le [of "w_todo w" "w_i w"]
    by (simp add: worker_measure_def WORKER_BUFFER_SIZE_def)
  show "w_i w \<le> w_todo w div WORKER_BUFFER_SIZE \<Longrightarrow>
           worker_measure (w\<lparr>w_i := w_i w + 1, w_buf := []\<rparr>) < worker_measure w"
    using assms(2) len by (simp add: worker_measure_def WORKER_BUFFER_SIZE_def)
  show "w_status w' \<noteq> Running \<Longrightarrow> worker_measure w' < worker_measure w"
    using assms(2) len i by (simp add: worker_measure_def WORKER_BUFFER_SIZE_def)
qed

lemma measure_update_less:
  "k < length ws \<Longrightarrow> worker_measure w' < worker_measure (ws ! k) \<Longrightarrow>
   sum_list (map worker_measure (ws[k := w'])) < sum_list (map worker_measure ws)"
  using sum_map_update [of k ws worker_measure w'] by simp

lemma pool_step_measure:
  assumes "pool_step H chainLen hashLen s s'" "pool_inv H chainLen hashLen s"
  shows "pool_measure s' < pool_measure s"
  using assms(1)
proof (cases rule: pool_step.cases)
  case (gen k w tv ch g')
  then have "worker_inv H chainLen hashLen w" using assms(2) by (auto simp: pool_inv_def dest: list_all_nth)
  with gen show ?thesis
    by (auto simp: pool_measure_def intro!: measure_update_less worker_step_measure(1))
next
  case (write_ok k w)
  then have "worker_inv H chainLen hashLen w" using assms(2) by (auto simp: pool_inv_def dest: list_all_nth)
  then have "worker_measure (w\<lparr>w_i := w_i w + 1, w_buf := []\<rparr>) < worker_measure w"
    using write_ok by (intro worker_step_measure(2)) simp_all
  with write_ok show ?thesis
    by (simp add: pool_measure_def measure_update_less)
next
  case (write_fail k w m)
  then have "worker_inv H chainLen hashLen w" using assms(2) by (auto simp: pool_inv_def dest: list_all_nth)
  with write_fail show ?thesis
    by (auto simp: pool_measure_def intro!: measure_update_less worker_step_measure(3))
next
  case (finish k w)
  then have "worker_inv H chainLen hashLen w" using assms(2) by (auto simp: pool_inv_def dest: list_all_nth)
  with finish show ?thesis
    by (auto simp: pool_measure_def intro!: measure_update_less worker_step_measure(3))
qed

text \<open>A pool with a running worker can always take a step.\<close>

lemma pool_progress_step:
  assumes "pool_inv H chainLen hashLen s" "k < length (workers s)" "w_status (workers s ! k) = Running"
  shows "\<exists>s'. pool_step H chainLen hashLen s s'"
proof -
  let ?w = "workers s ! k"
  have wi: "worker_inv H chainLen hashLen ?w"
    using assms by (auto simp: pool_inv_def dest: list_all_nth)
  show ?thesis
  proof (cases "w_i ?w \<le> w_todo ?w div WORKER_BUFFER_SIZE")
    case True
    show ?thesis
    proof (cases "length (w_buf ?w) < chains_left (w_todo ?w) (w_i ?w)")
      case less: True
      obtain ch g' where gc: "generateChain H chainLen hashLen \<lparr>tv_sec = 0, tv_usec = 0\<rparr> (rng s) = (ch, g')"
        by (cases "generateChain H chainLen hashLen \<lparr>tv_sec = 0, tv_usec = 0\<rparr> (rng s)")
      show ?thesis by (rule exI, rule pool_step.gen [OF assms(2) refl assms(3) True less gc])
    next
      case False
      with wi have "length (w_buf ?w) = chains_left (w_todo ?w) (w_i ?w)"
        by (simp add: worker_inv_def)
      from pool_step.write_ok [OF assms(2) refl assms(3) True this] show ?thesis by blast
    qed
  next
    case False
    then have "w_todo ?w div WORKER_BUFFER_SIZE < w_i ?w" by simp
    from pool_step.finish [OF assms(2) refl assms(3) this] show ?thesis by blast
  qed
qed

lemma pool_step_todo:
  "pool_step H chainLen hashLen s s' \<Longrightarrow> map w_todo (workers s') = map w_todo (workers s)"
  by (induction rule: pool_step.induct) (simp_all add: list_eq_iff_nth_eq nth_list_update)

lemma pool_reach_todo:
  "(pool_step H chainLen hashLen)\<^sup>*\<^sup>* s0 s \<Longrightarrow> map w_todo (workers s) = map w_todo (workers s0)"
  by (induction rule: rtranclp_induct) (simp_all add: pool_step_todo)

lemma start_todo:
  "createRainbowTable_start env g chainNum = Inr s0 \<Longrightarrow>
   sum_list (map w_todo (workers s0)) = sum_list (map unat (worker_args chainNum (threadNum_of (nprocs env))))"
  by (auto simp: createRainbowTable_start_def new_worker_def comp_def split: if_splits)

lemma stopped_no_failure:
  "list_all (\<lambda>w. w_status w \<noteq> Running) ws \<Longrightarrow> list_all (\<lambda>w. w_status w \<noteq> Failed) ws \<Longrightarrow>
   list_all (\<lambda>w. w_status w = Finished) ws"
  by (induction ws) (auto intro: wstatus.exhaust)

lemma createRainbowTable_outcome:
  assumes "createRainbowTable env g chainNum chainLen H hashLen ret f" "nprocs env < 2 ^ 32"
  shows "(ret = 1 \<or> ret = -1) \<and> (\<forall>cs. f = Some cs \<longrightarrow> list_all (genuine H chainLen hashLen) cs)
    \<and> (ret = 1 \<longrightarrow> (\<exists>cs. f = Some cs \<and> length cs = unat chainNum))"
  using assms(1)
proof (cases rule: createRainbowTable.cases)
  case (joined s0 s)
  have inv: "pool_inv H chainLen hashLen s"
    using pool_reach_inv [OF joined(4) pool_inv_start [OF joined(3)]] .
  have "length (table_file s) = unat chainNum"
    if "list_all (\<lambda>w. w_status w \<noteq> Failed) (workers s)"
  proof -
    have fin: "list_all (\<lambda>w. w_status w = Finished) (workers s)"
      using stopped_no_failure [OF joined(5) that] .
    have "length (table_file s) = sum_list (map written (workers s))"
      using inv that by (simp add: pool_inv_def)
    also have "\<dots> = sum_list (map w_todo (workers s))"
      using inv fin by (intro sum_written_finished [of H chainLen hashLen]) (simp_all add: pool_inv_def)
    also have "\<dots> = sum_list (map w_todo (workers s0))"
      using pool_reach_todo [OF joined(4)] by simp
    also have "\<dots> = unat chainNum"
      using start_todo [OF joined(3)] sum_worker_args threadNum_of_nonzero [OF assms(2)] by simp
    finally show ?thesis .
  qed
  with inv joined show ?thesis by (auto simp: pool_inv_def join_status_iff)
qed simp_all

text \<open>A run of \<open>createRainbowTable\<close> on \<open>pool_env1\<close>: one worker makes one chain,
  writes it and finishes.\<close>

lemma createRainbowTable_run1: "\<exists>ch. createRainbowTable pool_env1 cmwc_init 1 0 id_hash 4 1 (Some [ch])"
proof -
  define s0 where "s0 = \<lparr>rng = cmwc_init, table_file = [], workers = [new_worker 1]\<rparr>"
  have st: "createRainbowTable_start pool_env1 cmwc_init 1 = Inr s0"
    by (simp add: createRainbowTable_start_def pool_env1_def threadNum_of_def worker_args_def s0_def)
  obtain ch g' where gc: "generateChain id_hash 0 4 \<lparr>tv_sec = 0, tv_usec = 0\<rparr> (rng s0) = (ch, g')"
    by (cases "generateChain id_hash 0 4 \<lparr>tv_sec = 0, tv_usec = 0\<rparr> (rng s0)")
  define w1 where "w1 = (new_worker 1)\<lparr>w_buf := [ch]\<rparr>"
  define s1 where "s1 = s0\<lparr>rng := g', workers := [w1]\<rparr>"
  have "pool_step id_hash 0 4 s0 (s0\<lparr>rng := g', workers := (workers s0)[0 := (workers s0 ! 0)\<lparr>w_buf := w_buf (workers s0 ! 0) @ [ch]\<rparr>]\<rparr>)"
    by (rule pool_step.gen [OF _ refl _ _ _ gc])
       (simp_all add: s0_def new_worker_def chains_left_def WORKER_BUFFER_SIZE_def)
  then have t1: "pool_step id_hash 0 4 s0 s1" by (simp add: s1_def w1_def s0_def new_worker_def)
  define w2 where "w2 = w1\<lparr>w_i := 1, w_buf := []\<rparr>"
  define s2 where "s2 = s1\<lparr>table_file := [ch], workers := [w2]\<rparr>"
  have "pool_step id_hash 0 4 s1 (s1\<lparr>table_file := table_file s1 @ w_buf (workers s1 ! 0),
      workers := (workers s1)[0 := (workers s1 ! 0)\<lparr>w_i := w_i (workers s1 ! 0) + 1, w_buf := []\<rparr>]\<rparr>)"
    by (rule pool_step.write_ok [OF _ refl])
       (simp_all add: s1_def s0_def w1_def new_worker_def chains_left_def WORKER_BUFFER_SIZE_def)
  then have t2: "pool_step id_hash 0 4 s1 s2" by (simp add: s2_def s1_def s0_def w2_def w1_def new_worker_def)
  define s3 where "s3 = s2\<lparr>workers := [w2\<lparr>w_status := Finished\<rparr>]\<rparr>"
  have "pool_step id_hash 0 4 s2 (s2\<lparr>workers := (workers s2)[0 := (workers s2 ! 0)\<lparr>w_status := Finished\<rparr>]\<rparr>)"
    by (rule pool_step.finish [OF _ refl])
       (simp_all add: s2_def w2_def w1_def new_worker_def WORKER_BUFFER_SIZE_def)
  then have t3: "pool_step id_hash 0 4 s2 s3" by (simp add: s3_def s2_def)
  have run: "(pool_step id_hash 0 4)\<^sup>*\<^sup>* s0 s3"
    using t1 t2 t3 by (meson rtranclp.rtrancl_into_rtrancl rtranclp.rtrancl_refl)
  have stop: "list_all (\<lambda>w. w_status w \<noteq> Running) (workers s3)" by (simp add: s3_def)
  have js: "join_status (workers s3) = 0" by (simp add: s3_def join_status_iff)
  have c: "createRainbowTable pool_env1 cmwc_init 1 0 id_hash 4 1 (Some (table_file s3))"
    using createRainbowTable.joined [OF st run stop] js by simp
  moreover have "table_file s3 = [ch]" by (simp add: s3_def s2_def)
  ultimately show ?thesis by auto
qed


subsection \<open>Properties\<close>

text \<open>C8: \<open>createRainbowTable\<close> returns 1 or -1; every chain in the table file is
  genuine (its endpoint is the walk of its start point), also after a failed write;
  and when it returns 1 the file holds exactly \<open>chainNum\<close> chains, however the
  worker threads interleave (for any processor count below \<open>2^32\<close>).\<close>

theorem createRainbowTable_correct:
  assumes "createRainbowTable env g chainNum chainLen H hashLen ret f" "nprocs env < 2 ^ 32"
  shows "(ret = 1 \<or> ret = -1) \<and> (\<forall>cs. f = Some cs \<longrightarrow> list_all (genuine H chainLen hashLen) cs)
    \<and> (ret = 1 \<longrightarrow> (\<exists>cs. f = Some cs \<and> length cs = unat chainNum))"
  using assms by (rule createRainbowTable_outcome)

theorem createRainbowTable_correct_witness:
  "\<exists>ret f. createRainbowTable pool_env1 cmwc_init 1 0 id_hash 4 ret f \<and> nprocs pool_env1 < 2 ^ 32
     \<and> ret = 1 \<and> (\<exists>cs. f = Some cs \<and> length cs = 1 \<and> list_all (genuine id_hash 0 4) cs)"
proof -
  obtain ch where c: "createRainbowTable pool_env1 cmwc_init 1 0 id_hash 4 1 (Some [ch])"
    using createRainbowTable_run1 by blast
  have np: "nprocs pool_env1 < 2 ^ 32" by (simp add: pool_env1_def)
  have "list_all (genuine id_hash 0 4) [ch]"
    using createRainbowTable_correct [OF c np] by simp
  then show ?thesis using c np by auto
qed

text \<open>C9: The worker threads terminate, whatever the interleaving: from the state
  \<open>createRainbowTable\<close> starts, a reachable state in which a worker is still running
  can always take a step, and every step strictly decreases the work measure, so every
  run stops after at most \<open>pool_measure\<close> steps of the start state with all workers
  out of their loops, and the joins return.\<close>

theorem pool_terminates:
  assumes "createRainbowTable_start env g chainNum = Inr s0" "(pool_step H chainLen hashLen)\<^sup>*\<^sup>* s0 s"
  shows "(\<not> list_all (\<lambda>w. w_status w \<noteq> Running) (workers s) \<longrightarrow> (\<exists>s'. pool_step H chainLen hashLen s s'))
    \<and> (\<forall>s'. pool_step H chainLen hashLen s s' \<longrightarrow> pool_measure s' < pool_measure s)"
proof -
  have inv: "pool_inv H chainLen hashLen s"
    using pool_reach_inv [OF assms(2) pool_inv_start [OF assms(1)]] .
  have "\<exists>s'. pool_step H chainLen hashLen s s'" if nr: "\<not> list_all (\<lambda>w. w_status w \<noteq> Running) (workers s)"
  proof -
    obtain k where "k < length (workers s)" "w_status (workers s ! k) = Running"
      using nr by (auto simp: list_all_length)
    then show ?thesis by (rule pool_progress_step [OF inv])
  qed
  moreover have "pool_measure s' < pool_measure s" if "pool_step H chainLen hashLen s s'" for s'
    using that inv by (rule pool_step_measure)
  ultimately show ?thesis by blast
qed

theorem pool_terminates_witness:
  "createRainbowTable_start pool_env1 cmwc_init 1 = Inr \<lparr>rng = cmwc_init, table_file = [], workers = [new_worker 1]\<rparr>
   \<and> (\<exists>s'. pool_step id_hash 0 4 \<lparr>rng = cmwc_init, table_file = [], workers = [new_worker 1]\<rparr> s')"
proof -
  have st: "createRainbowTable_start pool_env1 cmwc_init 1 = Inr \<lparr>rng = cmwc_init, table_file = [], workers = [new_worker 1]\<rparr>"
    by (simp add: createRainbowTable_start_def pool_env1_def threadNum_of_def worker_args_def)
  have "\<not> list_all (\<lambda>w. w_status w \<noteq> Running) (workers \<lparr>rng = cmwc_init, table_file = [], workers = [new_worker 1]\<rparr>)"
    by (simp add: new_worker_def)
  then show ?thesis using st pool_terminates [OF st rtranclp.rtrancl_refl, of id_hash 0 4] by blast
qed

end
