(* ===== verification/Registry.thy ===== *)
theory Registry
  imports Prelude
begin

text \<open>
  The hash-function registry of \<open>src/unnamed/part_000\<close>: \<open>resolveHashFunc\<close>
  (lines 126--164) tries the plug-in libraries \<open>./hashlib0.so\<close> to
  \<open>./hashlib9.so\<close> in order; a library that \<open>dlopen\<close> cannot load, or that has no
  symbol \<open>hashFuncArray\<close>, is skipped; otherwise its \<open>hashFuncEntry\<close> array is
  scanned up to the terminating \<open>NULL\<close> name for an entry whose name \<open>strcmp\<close>s
  equal to the requested one.  The dynamic loader is a function from library paths to
  \<open>dl_lib\<close>; an exported array is the list of its entries before the terminator.
  The registry is polymorphic in the type of the hash functions.
\<close>

datatype 'f dl_lib = NoLib | NoSymbol | HashLib "(string \<times> 'f \<times> u32) list"

definition MAX_HASHLIBS :: nat where "MAX_HASHLIBS = 10"

definition HASHLIB :: string where "HASHLIB = ''hashlib''"

text \<open>\<open>snprintf(libname, 32, "./%s%d.so", HASHLIB, i)\<close>.\<close>

definition libname :: "nat \<Rightarrow> string" where
  "libname i = ''./'' @ HASHLIB @ dec_string i @ ''.so''"

text \<open>\<open>while (hf->hashName != NULL) { if (!strcmp(hf->hashName, hashFuncName)) ...; hf++; }\<close>\<close>

fun scan_entries :: "string \<Rightarrow> (string \<times> 'f \<times> u32) list \<Rightarrow> ('f \<times> u32) option" where
  "scan_entries name [] = None"
| "scan_entries name ((n, f, len) # es) = (if n = name then Some (f, len) else scan_entries name es)"

fun resolve_libs :: "(string \<Rightarrow> 'f dl_lib) \<Rightarrow> string \<Rightarrow> nat list \<Rightarrow> ('f \<times> u32) option" where
  "resolve_libs loader name [] = None"
| "resolve_libs loader name (i # is) =
     (case loader (libname i) of
        NoLib \<Rightarrow> resolve_libs loader name is
      | NoSymbol \<Rightarrow> resolve_libs loader name is
      | HashLib es \<Rightarrow>
          (case scan_entries name es of
             Some r \<Rightarrow> Some r
           | None \<Rightarrow> resolve_libs loader name is))"

definition resolveHashFunc :: "(string \<Rightarrow> 'f dl_lib) \<Rightarrow> string \<Rightarrow> ('f \<times> u32) option" where
  "resolveHashFunc loader hashFuncName = resolve_libs loader hashFuncName [0..<MAX_HASHLIBS]"

text \<open>The abstract registry: the entries of the loadable libraries, in search order.\<close>

definition lib_entries :: "'f dl_lib \<Rightarrow> (string \<times> 'f \<times> u32) list" where
  "lib_entries l = (case l of HashLib es \<Rightarrow> es | _ \<Rightarrow> [])"

definition registry :: "(string \<Rightarrow> 'f dl_lib) \<Rightarrow> (string \<times> 'f \<times> u32) list" where
  "registry loader = concat (map (\<lambda>i. lib_entries (loader (libname i))) [0..<MAX_HASHLIBS])"

subsection \<open>Lemmas\<close>

lemma scan_entries_map_of: "scan_entries name es = map_of es name"
  by (induction es rule: scan_entries.induct) auto

lemma resolve_libs_map_of:
  "resolve_libs loader name is = map_of (concat (map (\<lambda>i. lib_entries (loader (libname i))) is)) name"
  by (induction "is") (auto simp: lib_entries_def scan_entries_map_of map_of_append map_add_def split: dl_lib.splits option.splits)

subsection \<open>Properties\<close>

text \<open>C21: \<open>resolveHashFunc\<close> implements the lookup of the name in the registry made
  of the entries of \<open>hashlib0.so\<close> to \<open>hashlib9.so\<close> in order (libraries that do
  not load or do not export \<open>hashFuncArray\<close> contribute nothing): it returns the
  function and digest length of the first entry with that name, and \<open>NULL\<close> when
  there is none.\<close>

theorem resolveHashFunc_refines:
  "resolveHashFunc loader name = map_of (registry loader) name"
  by (simp add: resolveHashFunc_def registry_def resolve_libs_map_of)

end
