(* ===== verification/Crack.thy ===== *)
theory Crack
  imports Pool Registry
begin

text \<open>
  The exhaustive searcher of \<open>src/unnamed/part_000\<close>: \<open>seedRecoveryWorker\<close>
  (lines 582--599) scans \<open>i = start .. end\<close> (\<open>unsigned int\<close>, so \<open>i++\<close> wraps)
  for a seed whose digest \<open>memcmp\<close>-equals the target, stopping when it finds one or
  when the shared flag \<open>found\<close> is set; \<open>searchHashOnline\<close> (lines 603--650) splits
  \<open>0 .. MAX_SEED\<close> among one worker per processor and joins them.  A worker alone
  is the loop \<open>seed_loop\<close>, a \<open>partial_function (option)\<close> because with
  \<open>end = MAX_SEED\<close> the test \<open>i <= end\<close> never fails.  The workers together
  are the step relation \<open>crack_step\<close> on the shared \<open>found\<close> and \<open>*seed\<close> and
  each worker's position; one step is one iteration of a worker's loop body.
\<close>

definition MAX_SEED :: u32 where "MAX_SEED = 0xffffffff"



record crack_worker =
  c_i :: u32
  c_end :: u32
  c_done :: bool

record crack =
  found :: bool
  seed :: "u32 option"
  cworkers :: "crack_worker list"

text \<open>One iteration of worker \<open>k\<close>: the body (\<open>found = 1; *seed = i\<close> on a match,
  then \<open>break\<close> if \<open>found\<close> is set, else \<open>i++\<close>), or the exit when
  \<open>i <= end\<close> fails.\<close>

inductive crack_step :: "hash_fn \<Rightarrow> u32 \<Rightarrow> digest \<Rightarrow> crack \<Rightarrow> crack \<Rightarrow> bool"
  for hashFunc :: hash_fn and hashLen :: u32 and hash :: digest where
  body: "k < length (cworkers s) \<Longrightarrow> w = cworkers s ! k \<Longrightarrow> \<not> c_done w \<Longrightarrow> c_i w \<le> c_end w \<Longrightarrow>
    m = memcmp_eq hashLen hash (hashFunc (c_i w)) \<Longrightarrow>
    crack_step hashFunc hashLen hash s
      (s\<lparr>found := found s \<or> m, seed := (if m then Some (c_i w) else seed s),
         cworkers := (cworkers s)[k := (if found s \<or> m then w\<lparr>c_done := True\<rparr> else w\<lparr>c_i := c_i w + 1\<rparr>)]\<rparr>)"
| leave: "k < length (cworkers s) \<Longrightarrow> w = cworkers s ! k \<Longrightarrow> \<not> c_done w \<Longrightarrow> \<not> c_i w \<le> c_end w \<Longrightarrow>
    crack_step hashFunc hashLen hash s (s\<lparr>cworkers := (cworkers s)[k := w\<lparr>c_done := True\<rparr>]\<rparr>)"

text \<open>The ranges: \<open>range = MAX_SEED / threads\<close>, worker \<open>k\<close> starts at
  \<open>k * range\<close> and ends at \<open>start + range\<close>, the last one at \<open>MAX_SEED\<close>.\<close>

definition crack_ranges :: "u32 \<Rightarrow> (u32 \<times> u32) list" where
  "crack_ranges threads =
     (let range = MAX_SEED div threads
      in map (\<lambda>k. (of_nat k * range, if of_nat k = threads - 1 then MAX_SEED else of_nat k * range + range))
           [0..<unat threads])"

definition crack_init :: "u32 \<Rightarrow> u32 option \<Rightarrow> crack" where
  "crack_init threads seed0 =
     \<lparr>found = False, seed = seed0,
      cworkers = map (\<lambda>(st, en). \<lparr>c_i = st, c_end = en, c_done = False\<rparr>) (crack_ranges threads)\<rparr>"

text \<open>\<open>searchHashOnline\<close>: \<open>0\<close> when the hash function is unknown; otherwise the value
  of \<open>found\<close> once every worker has been joined, with \<open>*seed\<close> (\<open>seed0\<close> is its
  value before the call).\<close>

inductive searchHashOnline ::
  "(string \<Rightarrow> hash_fn dl_lib) \<Rightarrow> int \<Rightarrow> string \<Rightarrow> digest \<Rightarrow> u32 option \<Rightarrow> int \<Rightarrow> u32 option \<Rightarrow> bool"
  for loader conf hashFuncName targetHash seed0 where
  unknown: "resolveHashFunc loader hashFuncName = None \<Longrightarrow>
    searchHashOnline loader conf hashFuncName targetHash seed0 0 seed0"
| joined: "resolveHashFunc loader hashFuncName = Some (H, hashLen) \<Longrightarrow>
    (crack_step H hashLen targetHash)\<^sup>*\<^sup>* (crack_init (threadNum_of conf) seed0) s \<Longrightarrow>
    list_all c_done (cworkers s) \<Longrightarrow>
    searchHashOnline loader conf hashFuncName targetHash seed0 (if found s then 1 else 0) (seed s)"

subsection \<open>The worker alone\<close>

lemma le_MAX_SEED [simp]: "(w :: u32) \<le> MAX_SEED"
  using unat_u32_less [of w] by (simp add: MAX_SEED_def word_le_nat_alt)



subsection \<open>The workers together\<close>

definition crack_inv :: "hash_fn \<Rightarrow> u32 \<Rightarrow> digest \<Rightarrow> u32 option \<Rightarrow> crack \<Rightarrow> bool" where
  "crack_inv H len tg seed0 s \<longleftrightarrow>
     (if found s then \<exists>x. seed s = Some x \<and> memcmp_eq len tg (H x) else seed s = seed0)"

lemma crack_step_inv:
  "crack_step H len tg s s' \<Longrightarrow> crack_inv H len tg seed0 s \<Longrightarrow> crack_inv H len tg seed0 s'"
  by (induction rule: crack_step.induct) (auto simp: crack_inv_def)

lemma crack_reach_inv:
  "(crack_step H len tg)\<^sup>*\<^sup>* s0 s \<Longrightarrow> crack_inv H len tg seed0 s0 \<Longrightarrow> crack_inv H len tg seed0 s"
  by (induction rule: rtranclp_induct) (auto intro: crack_step_inv)

lemma crack_init_inv: "crack_inv H len tg seed0 (crack_init threads seed0)"
  by (simp add: crack_inv_def crack_init_def)

text \<open>Without a matching seed nobody sets \<open>found\<close>, the ends never change and a worker
  whose range ends at \<open>MAX_SEED\<close> never leaves its loop.\<close>

definition stuck_inv :: "u32 list \<Rightarrow> crack \<Rightarrow> bool" where
  "stuck_inv ends s \<longleftrightarrow> \<not> found s \<and> map c_end (cworkers s) = ends
     \<and> list_all (\<lambda>w. c_end w = MAX_SEED \<longrightarrow> \<not> c_done w) (cworkers s)"

lemma crack_step_stuck:
  assumes "crack_step H len tg s s'" "stuck_inv ends s" "\<forall>x. \<not> memcmp_eq len tg (H x)"
  shows "stuck_inv ends s'"
  using assms(1)
proof (cases rule: crack_step.cases)
  case (body k w m)
  then show ?thesis using assms(2,3)
    by (auto simp: stuck_inv_def list_eq_iff_nth_eq nth_list_update list_all_length)
next
  case (leave k w)
  then have "c_end w \<noteq> MAX_SEED" using le_MAX_SEED [of "c_i w"] by auto
  with leave show ?thesis using assms(2)
    by (auto simp: stuck_inv_def list_eq_iff_nth_eq nth_list_update list_all_length)
qed

lemma crack_reach_stuck:
  "(crack_step H len tg)\<^sup>*\<^sup>* s0 s \<Longrightarrow> stuck_inv ends s0 \<Longrightarrow> \<forall>x. \<not> memcmp_eq len tg (H x) \<Longrightarrow>
   stuck_inv ends s"
  by (induction rule: rtranclp_induct) (auto intro: crack_step_stuck)

lemma crack_ranges_last:
  assumes "threads \<noteq> 0"
  shows "length (crack_ranges threads) = unat threads \<and> snd (last (crack_ranges threads)) = MAX_SEED"
proof -
  have "[0..<unat threads] \<noteq> []" using assms by (simp add: unat_gt_0)
  moreover have "last [0..<unat threads] = unat threads - 1" using assms by (simp add: unat_gt_0)
  moreover have "(of_nat (unat threads - 1) :: u32) = threads - 1"
    using assms by (simp add: of_nat_diff unat_gt_0 Suc_le_eq)
  ultimately show ?thesis by (simp add: crack_ranges_def Let_def last_map)
qed

lemma crack_init_stuck:
  "threads \<noteq> 0 \<Longrightarrow> stuck_inv (map snd (crack_ranges threads)) (crack_init threads seed0)"
  by (auto simp: stuck_inv_def crack_init_def list_all_iff comp_def split: prod.splits)

lemma crack_last_worker_steps:
  assumes "stuck_inv ends s" "k < length (cworkers s)" "ends ! k = MAX_SEED"
  shows "\<exists>s'. crack_step H len tg s s'"
proof -
  let ?w = "cworkers s ! k"
  have "c_end ?w = MAX_SEED" using assms by (auto simp: stuck_inv_def dest: arg_cong [of _ _ "\<lambda>xs. xs ! k"])
  moreover have "\<not> c_done ?w" using assms calculation by (auto simp: stuck_inv_def list_all_length)
  ultimately show ?thesis
    using crack_step.body [OF assms(2) refl _ _ refl, of H len tg] by auto
qed

lemma crack_ranges_nth:
  "k < unat threads \<Longrightarrow> crack_ranges threads ! k =
     (of_nat k * (MAX_SEED div threads),
      if of_nat k = threads - 1 then MAX_SEED else of_nat k * (MAX_SEED div threads) + MAX_SEED div threads)"
  by (simp add: crack_ranges_def Let_def)

lemma mod_cover: "0 < (r :: nat) \<Longrightarrow> x < r + r * (x div r)"
proof -
  assume r: "0 < r"
  have "x = r * (x div r) + x mod r" by simp
  moreover have "x mod r < r" using r by simp
  ultimately show ?thesis by linarith
qed

lemma add_bound: "a = k * r \<Longrightarrow> (k + 1) * r < (n :: nat) \<Longrightarrow> a + r < n"
  by simp

subsection \<open>Properties\<close>

text \<open>C17: \<open>searchHashOnline\<close> returns 0 or 1, whatever the interleaving of its
  workers; when it returns 1 the hash function was resolved and \<open>*seed\<close> holds a
  seed whose digest equals the target on \<open>hashLen\<close> bytes; when it returns 0,
  \<open>*seed\<close> is untouched (for an unknown hash function it returns 0, "not found",
  not an error).\<close>

theorem searchHashOnline_sound:
  assumes "searchHashOnline loader conf hashFuncName targetHash seed0 ret sd"
  shows "(ret = 0 \<or> ret = 1)
    \<and> (ret = 1 \<longrightarrow> (\<exists>H len x. resolveHashFunc loader hashFuncName = Some (H, len)
                        \<and> sd = Some x \<and> memcmp_eq len targetHash (H x)))
    \<and> (ret = 0 \<longrightarrow> sd = seed0)"
  using assms
proof (cases rule: searchHashOnline.cases)
  case (joined H hashLen s)
  have "crack_inv H hashLen targetHash seed0 s"
    using crack_reach_inv [OF joined(4) crack_init_inv] .
  with joined show ?thesis by (auto simp: crack_inv_def)
qed simp

text \<open>C18: When the hash function resolves but no seed at all has the target digest,
  \<open>searchHashOnline\<close> never returns: in every state its workers can reach, the
  worker whose range ends at \<open>MAX_SEED\<close> can still take a step and has not left its
  loop (\<open>i <= 0xffffffff\<close> never fails, \<open>i++\<close> wraps to 0), so no run ends with
  every worker joined.  The "not found" answer of the specification is never given.\<close>

theorem searchHashOnline_never_returns:
  assumes "resolveHashFunc loader hashFuncName = Some (H, hashLen)"
    "\<forall>x. \<not> memcmp_eq hashLen targetHash (H x)" "conf < 2 ^ 32"
  shows "(\<forall>s. (crack_step H hashLen targetHash)\<^sup>*\<^sup>* (crack_init (threadNum_of conf) seed0) s \<longrightarrow>
            (\<exists>s'. crack_step H hashLen targetHash s s') \<and> \<not> list_all c_done (cworkers s))
    \<and> \<not> searchHashOnline loader conf hashFuncName targetHash seed0 ret sd"
proof -
  let ?T = "threadNum_of conf"
  let ?ends = "map snd (crack_ranges ?T)"
  have T: "?T \<noteq> 0" using assms(3) by (rule threadNum_of_nonzero)
  have cr: "length (crack_ranges ?T) = unat ?T" "snd (last (crack_ranges ?T)) = MAX_SEED"
    using crack_ranges_last [OF T] by simp_all
  have pos: "0 < unat ?T" using T by (simp add: unat_gt_0)
  then have ne: "crack_ranges ?T \<noteq> []" using cr(1) by auto
  have last: "length ?ends = unat ?T" "?ends ! (unat ?T - 1) = MAX_SEED" "unat ?T - 1 < unat ?T"
    using cr ne pos by (simp_all add: last_conv_nth)
  have reach: "(\<exists>s'. crack_step H hashLen targetHash s s') \<and> \<not> list_all c_done (cworkers s)"
    if r: "(crack_step H hashLen targetHash)\<^sup>*\<^sup>* (crack_init ?T seed0) s" for s
  proof -
    have st: "stuck_inv ?ends s"
      using crack_reach_stuck [OF r crack_init_stuck [OF T] assms(2)] .
    then have len: "unat ?T - 1 < length (cworkers s)"
      using last by (auto simp: stuck_inv_def dest: arg_cong [of _ _ length])
    have "c_end (cworkers s ! (unat ?T - 1)) = MAX_SEED"
      using st last len by (auto simp: stuck_inv_def dest: arg_cong [of _ _ "\<lambda>xs. xs ! (unat ?T - 1)"])
    then have "\<not> c_done (cworkers s ! (unat ?T - 1))"
      using st len by (auto simp: stuck_inv_def list_all_length)
    then have "\<not> list_all c_done (cworkers s)" using len by (auto simp: list_all_length)
    moreover have "\<exists>s'. crack_step H hashLen targetHash s s'"
      using crack_last_worker_steps [OF st len] last by simp
    ultimately show ?thesis by blast
  qed
  moreover have "\<not> searchHashOnline loader conf hashFuncName targetHash seed0 ret sd"
  proof
    assume "searchHashOnline loader conf hashFuncName targetHash seed0 ret sd"
    then show False
    proof (cases rule: searchHashOnline.cases)
      case (joined H' hashLen' s)
      then have "H' = H" "hashLen' = hashLen" using assms(1) by simp_all
      with joined reach [of s] show False by simp
    qed (use assms(1) in simp)
  qed
  ultimately show ?thesis by blast
qed

theorem searchHashOnline_sound_witness:
  "searchHashOnline (\<lambda>_. HashLib [(''id'', id_hash, 4)]) 1 ''id'' (le_bytes32 0) None 1 (Some 0)
   \<and> memcmp_eq 4 (le_bytes32 0) (id_hash 0)"
proof -
  have r: "resolveHashFunc (\<lambda>_. HashLib [(''id'', id_hash, 4)]) ''id'' = Some (id_hash, 4)"
    by (simp add: resolveHashFunc_def MAX_HASHLIBS_def upt_conv_Cons)
  have i: "crack_init (threadNum_of 1) None =
      \<lparr>found = False, seed = None, cworkers = [\<lparr>c_i = 0, c_end = MAX_SEED, c_done = False\<rparr>]\<rparr>"
    by (simp add: crack_init_def crack_ranges_def threadNum_of_def)
  let ?s0 = "\<lparr>found = False, seed = None, cworkers = [\<lparr>c_i = 0, c_end = MAX_SEED, c_done = False\<rparr>]\<rparr>"
  have "crack_step id_hash 4 (le_bytes32 0) ?s0
      (?s0\<lparr>found := found ?s0 \<or> True, seed := (if True then Some (c_i (cworkers ?s0 ! 0)) else seed ?s0),
         cworkers := (cworkers ?s0)[0 := (if found ?s0 \<or> True then (cworkers ?s0 ! 0)\<lparr>c_done := True\<rparr>
                                         else (cworkers ?s0 ! 0)\<lparr>c_i := c_i (cworkers ?s0 ! 0) + 1\<rparr>)]\<rparr>)"
    by (rule crack_step.body [OF _ refl]) (simp_all add: id_hash_def)
  then have st: "crack_step id_hash 4 (le_bytes32 0) (crack_init (threadNum_of 1) None)
      \<lparr>found = True, seed = Some 0, cworkers = [\<lparr>c_i = 0, c_end = MAX_SEED, c_done = True\<rparr>]\<rparr>"
    using i by simp
  have "searchHashOnline (\<lambda>_. HashLib [(''id'', id_hash, 4)]) 1 ''id'' (le_bytes32 0) None
      (if found \<lparr>found = True, seed = Some 0, cworkers = [\<lparr>c_i = 0, c_end = MAX_SEED, c_done = True\<rparr>]\<rparr> then 1 else 0)
      (seed \<lparr>found = True, seed = Some (0::u32), cworkers = [\<lparr>c_i = 0, c_end = MAX_SEED, c_done = True\<rparr>]\<rparr>)"
    by (rule searchHashOnline.joined [OF r r_into_rtranclp [of "crack_step id_hash 4 (le_bytes32 0)", OF st]]) simp
  then have h: "searchHashOnline (\<lambda>_. HashLib [(''id'', id_hash, 4)]) 1 ''id'' (le_bytes32 0) None 1 (Some 0)"
    by simp
  show ?thesis using h searchHashOnline_sound [OF h] r by auto
qed

theorem searchHashOnline_never_returns_witness:
  "\<not> searchHashOnline (\<lambda>_. HashLib [(''zero'', \<lambda>_. [0, 0, 0, 0], 4)]) 1 ''zero'' [1, 1, 1, 1] None 0 None
   \<and> (\<exists>s'. crack_step (\<lambda>_. [0, 0, 0, 0]) 4 [1, 1, 1, 1] (crack_init (threadNum_of 1) None) s')"
proof -
  have r: "resolveHashFunc (\<lambda>_. HashLib [(''zero'', \<lambda>_. [0, 0, 0, 0], 4)]) ''zero'' = Some (\<lambda>_. [0, 0, 0, 0], 4)"
    by (simp add: resolveHashFunc_def MAX_HASHLIBS_def upt_conv_Cons)
  have n: "\<forall>x. \<not> memcmp_eq 4 [1, 1, 1, 1] ((\<lambda>_. [0, 0, 0, 0 :: u8]) x)"
    by (simp add: memcmp_eq_def)
  have c: "(1 :: int) < 2 ^ 32" by simp
  show ?thesis using searchHashOnline_never_returns [OF r n c, of None 0 None] by blast
qed

text \<open>C19: The ranges of the workers cover the whole seed space: every seed lies in the
  range \<open>start .. end\<close> of some worker (neighbouring ranges share their boundary
  seed, and the last one ends at \<open>MAX_SEED\<close>), for any number of threads.\<close>

theorem crack_ranges_cover:
  assumes T: "threads \<noteq> 0"
  shows "\<exists>k < unat threads. fst (crack_ranges threads ! k) \<le> x \<and> x \<le> snd (crack_ranges threads ! k)"
proof -
  let ?r = "MAX_SEED div threads"
  have ur: "unat ?r = (2 ^ 32 - 1) div unat threads" by (simp add: unat_div MAX_SEED_def)
  have tpos: "0 < unat threads" using T by (simp add: unat_gt_0)
  have tle: "unat threads < 2 ^ 32" using unat_u32_less [of threads] .
  have rpos: "0 < unat ?r" using ur tpos tle by (simp add: div_greater_zero_iff)
  have rt: "unat threads * unat ?r \<le> 4294967295" using ur by (simp add: mult.commute)
  define k where "k = min (unat x div unat ?r) (unat threads - 1)"
  have k: "k < unat threads" using tpos by (simp add: k_def)
  have kr: "k * unat ?r \<le> unat x"
    using k_def by (metis min.cobounded1 div_times_less_eq_dividend mult_le_mono1 order.trans)
  have uk: "unat (of_nat k * ?r) = k * unat ?r"
  proof -
    have "k * unat ?r \<le> unat threads * unat ?r" using k by simp
    then have "k * unat ?r < 4294967296" using rt by linarith
    then show ?thesis using k tle by (simp add: unat_mult_lem [THEN iffD1] unat_of_nat_u32)
  qed
  have lo: "of_nat k * ?r \<le> x" using kr uk by (simp add: word_le_nat_alt)
  have hi: "x \<le> snd (crack_ranges threads ! k)"
  proof (cases "(of_nat k :: u32) = threads - 1")
    case True
    then show ?thesis using k by (simp add: crack_ranges_nth)
  next
    case False
    have "k \<noteq> unat threads - 1"
    proof
      assume "k = unat threads - 1"
      then have "(of_nat k :: u32) = of_nat (unat threads) - 1" using tpos by (simp add: of_nat_diff)
      with False show False by simp
    qed
    then have kl: "k < unat threads - 1" using k by simp
    then have kq: "k = unat x div unat ?r" by (simp add: k_def)
    have "(k + 1) * unat ?r \<le> unat threads * unat ?r" using kl by (intro mult_le_mono1) simp
    then have ov: "(k + 1) * unat ?r < 4294967296" using rt by linarith
    have "unat (of_nat k * ?r) + unat ?r < 2 ^ LENGTH(32)" using add_bound [OF uk ov] by simp
    then have "unat (of_nat k * ?r + ?r) = unat (of_nat k * ?r) + unat ?r" by (rule unat_add_lem [THEN iffD1])
    then have "unat (of_nat k * ?r + ?r) = k * unat ?r + unat ?r" using uk by simp
    moreover have "unat x < (k + 1) * unat ?r"
      using mod_cover [OF rpos, of "unat x"] kq by (simp add: algebra_simps)
    ultimately show ?thesis using k False by (simp add: crack_ranges_nth word_le_nat_alt algebra_simps)
  qed
  show ?thesis using k lo hi by (auto simp: crack_ranges_nth)
qed

theorem crack_ranges_cover_witness:
  "(4 :: u32) \<noteq> 0 \<and> (\<exists>k < unat (4 :: u32). fst (crack_ranges 4 ! k) \<le> 0xfffffff0 \<and> 0xfffffff0 \<le> snd (crack_ranges 4 ! k))"
  using crack_ranges_cover [of 4 "0xfffffff0"] by simp



end
