(* ===== verification/Sorter.thy ===== *)
theory Sorter
  imports Chain
begin

text \<open>
  The in-place quicksort \<open>quickSortTable\<close> of \<open>src/unnamed/part_000\<close> (lines
  299--320) over the memory-mapped table, keyed by endpoint, with the first entry as
  pivot and the single-direction partition loop of lines 309--314.  The array is a list
  updated by \<open>swap_at\<close>; the indices \<open>beg\<close>, \<open>end\<close>, \<open>l\<close>, \<open>r\<close> are natural
  numbers (the C mixes \<open>unsigned int\<close> and \<open>int\<close>; the two agree for tables below
  \<open>2^31\<close> entries).  \<open>int piv = table[beg].endpoint\<close> converts the endpoint to
  \<open>int\<close>, but the comparison \<open>table[l].endpoint <= piv\<close> converts it back to
  \<open>unsigned int\<close>, so the comparison is the unsigned one, \<open>\<le>\<close> on \<open>u32\<close>.
  The lemmas describe a segment \<open>seg t i j\<close> (entries \<open>i .. j - 1\<close>) of the
  table: the sort permutes the segment, sorts it by endpoint, and leaves the rest of the
  table alone.
\<close>

text \<open>\<open>while (l < r) { if (table[l].endpoint <= piv) l++; else swap(&table[l], &table[--r]); }\<close>\<close>

function part_loop :: "chain list \<Rightarrow> u32 \<Rightarrow> nat \<Rightarrow> nat \<Rightarrow> chain list \<times> nat \<times> nat" where
  "part_loop table piv l r =
     (if l < r then
        (if endpoint (table ! l) \<le> piv then part_loop table piv (l + 1) r
         else part_loop (swap_at table l (r - 1)) piv l (r - 1))
      else (table, l, r))"
  by pat_completeness auto
termination
  by (relation "measure (\<lambda>(_, _, l, r). r - l)") auto

declare part_loop.simps [simp del]

text \<open>One call: partition \<open>beg + 1 .. end - 1\<close> around \<open>table[beg]\<close>, move the pivot
  to \<open>l - 1\<close> by \<open>swap(&table[--l], &table[beg])\<close>, sort \<open>beg .. l - 1\<close> and
  \<open>r .. end - 1\<close>.\<close>

function quickSortTable :: "chain list \<Rightarrow> nat \<Rightarrow> nat \<Rightarrow> chain list" where
  "quickSortTable table beg en =
     (if beg + 1 < en then
        (let piv = endpoint (table ! beg);
             (t1, l, r) = part_loop table piv (beg + 1) en;
             t2 = swap_at t1 (l - 1) beg;
             t3 = quickSortTable t2 beg (l - 1)
         in quickSortTable t3 r en)
      else table)"
  by pat_completeness auto

text \<open>A small table to evaluate the sort on.\<close>

definition sort_demo :: "chain list" where
  "sort_demo = [\<lparr>startpoint = 1, endpoint = 9\<rparr>, \<lparr>startpoint = 2, endpoint = 3\<rparr>,
     \<lparr>startpoint = 3, endpoint = 7\<rparr>, \<lparr>startpoint = 4, endpoint = 3\<rparr>]"

subsection \<open>The partition loop\<close>

lemma part_loop_bounds:
  "part_loop t piv l r = (t', l', r') \<Longrightarrow> l \<le> r \<Longrightarrow>
   l' = r' \<and> l \<le> l' \<and> l' \<le> r \<and> length t' = length t"
proof (induction t piv l r arbitrary: t' l' r' rule: part_loop.induct)
  case (1 t piv l r)
  show ?case
  proof (cases "l < r")
    case False
    with "1.prems" show ?thesis by (simp add: part_loop.simps)
  next
    case True
    show ?thesis
    proof (cases "endpoint (t ! l) \<le> piv")
      case le: True
      with True "1.prems" have "part_loop t piv (l + 1) r = (t', l', r')"
        by (simp add: part_loop.simps)
      with "1.IH"(1) [OF True le] True "1.prems" show ?thesis by fastforce
    next
      case gt: False
      with True "1.prems" have "part_loop (swap_at t l (r - 1)) piv l (r - 1) = (t', l', r')"
        by (simp add: part_loop.simps)
      with "1.IH"(2) [OF True gt] True "1.prems" show ?thesis by fastforce
    qed
  qed
qed

lemma part_loop_frame:
  "part_loop t piv l r = (t', l', r') \<Longrightarrow> l \<le> r \<Longrightarrow> r \<le> length t \<Longrightarrow>
   take l t' = take l t \<and> drop r t' = drop r t \<and> mset (seg t' l r) = mset (seg t l r)"
proof (induction t piv l r arbitrary: t' l' r' rule: part_loop.induct)
  case (1 t piv l r)
  show ?case
  proof (cases "l < r")
    case False
    with "1.prems" show ?thesis by (simp add: part_loop.simps)
  next
    case True
    show ?thesis
    proof (cases "endpoint (t ! l) \<le> piv")
      case le: True
      with True "1.prems" have rec: "part_loop t piv (l + 1) r = (t', l', r')"
        by (simp add: part_loop.simps)
      from "1.IH"(1) [OF True le rec] True "1.prems"
      have ih: "take (l + 1) t' = take (l + 1) t" "drop r t' = drop r t"
        "mset (seg t' (l + 1) r) = mset (seg t (l + 1) r)" by simp_all
      have len: "length t' = length t"
        using part_loop_bounds [OF rec] True "1.prems" by simp
      have tl: "t' ! l = t ! l"
        using arg_cong [OF ih(1), of "\<lambda>xs. xs ! l"] True "1.prems" by simp
      have "take l t' = take l t"
        using arg_cong [OF ih(1), of "take l"] by simp
      moreover have "mset (seg t' l r) = mset (seg t l r)"
        using ih(3) tl len True "1.prems" by (simp add: seg_Cons)
      ultimately show ?thesis using ih(2) by simp
    next
      case gt: False
      let ?t1 = "swap_at t l (r - 1)"
      from gt True "1.prems" have rec: "part_loop ?t1 piv l (r - 1) = (t', l', r')"
        by (simp add: part_loop.simps)
      from "1.IH"(2) [OF True gt rec] True "1.prems"
      have ih: "take l t' = take l ?t1" "drop (r - 1) t' = drop (r - 1) ?t1"
        "mset (seg t' l (r - 1)) = mset (seg ?t1 l (r - 1))" by simp_all
      have len: "length t' = length t"
        using part_loop_bounds [OF rec] True "1.prems" by simp
      have "take l ?t1 = take l t"
        using True by (intro nth_equalityI) (auto simp: swap_at_def nth_list_update)
      moreover have "drop r ?t1 = drop r t"
        using True "1.prems" by (intro nth_equalityI) (simp_all add: swap_at_def)
      moreover have "drop r t' = drop r ?t1"
        using arg_cong [OF ih(2), of "drop 1"] True by (simp add: Suc_diff_Suc)
      moreover have "t' ! (r - 1) = ?t1 ! (r - 1)"
        using arg_cong [OF ih(2), of hd] True "1.prems" len by (simp add: hd_drop_conv_nth)
      moreover have "mset (seg ?t1 l r) = mset (seg t l r)"
        using True "1.prems" by (intro mset_seg_swap_at) simp_all
      ultimately show ?thesis
        using ih True "1.prems" len by (simp add: seg_snoc [of l r])
    qed
  qed
qed

lemma part_loop_parts:
  "part_loop t piv l r = (t', l', r') \<Longrightarrow> l \<le> r \<Longrightarrow> r \<le> length t \<Longrightarrow>
   (\<forall>x \<in> set (seg t' l l'). endpoint x \<le> piv) \<and> (\<forall>x \<in> set (seg t' l' r). piv < endpoint x)"
proof (induction t piv l r arbitrary: t' l' r' rule: part_loop.induct)
  case (1 t piv l r)
  show ?case
  proof (cases "l < r")
    case False
    with "1.prems" show ?thesis by (simp add: part_loop.simps seg_def)
  next
    case True
    show ?thesis
    proof (cases "endpoint (t ! l) \<le> piv")
      case le: True
      with True "1.prems" have rec: "part_loop t piv (l + 1) r = (t', l', r')"
        by (simp add: part_loop.simps)
      have ih: "\<forall>x \<in> set (seg t' (l + 1) l'). endpoint x \<le> piv" "\<forall>x \<in> set (seg t' l' r). piv < endpoint x"
        using "1.IH"(1) [OF True le rec] True "1.prems" by simp_all
      have b: "l + 1 \<le> l'" "l' \<le> r" "length t' = length t"
        using part_loop_bounds [OF rec] True "1.prems" by simp_all
      have "take (l + 1) t' = take (l + 1) t"
        using part_loop_frame [OF rec] True "1.prems" by simp
      then have "take (l + 1) t' ! l = take (l + 1) t ! l" by simp
      then have tl: "t' ! l = t ! l" by simp
      have "seg t' l l' = t' ! l # seg t' (l + 1) l'"
        using b "1.prems" seg_Cons [of l l' t'] by simp
      with ih tl le show ?thesis by simp
    next
      case gt: False
      let ?t1 = "swap_at t l (r - 1)"
      from gt True "1.prems" have rec: "part_loop ?t1 piv l (r - 1) = (t', l', r')"
        by (simp add: part_loop.simps)
      have ih: "\<forall>x \<in> set (seg t' l l'). endpoint x \<le> piv" "\<forall>x \<in> set (seg t' l' (r - 1)). piv < endpoint x"
        using "1.IH"(2) [OF True gt rec] True "1.prems" by simp_all
      have lr: "l \<le> r - 1" "r - 1 \<le> length ?t1" using True "1.prems" by simp_all
      have b: "l \<le> l'" "l' \<le> r - 1" "length t' = length t"
        using part_loop_bounds [OF rec lr(1)] by simp_all
      have "drop (r - 1) t' = drop (r - 1) ?t1"
        using part_loop_frame [OF rec] True "1.prems" by simp
      then have "drop (r - 1) t' ! 0 = drop (r - 1) ?t1 ! 0" by simp
      then have "t' ! (r - 1) = ?t1 ! (r - 1)"
        using True "1.prems" b by simp
      then have tr: "t' ! (r - 1) = t ! l"
        using True "1.prems" by (simp add: swap_at_def)
      have "seg t' l' r = seg t' l' (r - 1) @ [t' ! (r - 1)]"
      proof (cases "l' < r")
        case True
        then show ?thesis using b "1.prems" by (intro seg_snoc) simp_all
      next
        case False
        with b True show ?thesis by simp
      qed
      with ih tr gt show ?thesis by (auto simp: not_le)
    qed
  qed
qed

lemma part_loop_frame':
  "part_loop t piv l r = (t', l', r') \<Longrightarrow> l \<le> r \<Longrightarrow> r \<le> length t \<Longrightarrow> frame t t' l r"
  using part_loop_frame [of t piv l r t' l' r'] part_loop_bounds [of t piv l r t' l' r']
  by (simp add: frame_def)

lemma part_loop_bounds_pair:
  "(t', lr) = part_loop t piv l r \<Longrightarrow> l \<le> r \<Longrightarrow> fst lr = snd lr \<and> l \<le> fst lr \<and> fst lr \<le> r"
  using part_loop_bounds [of t piv l r t' "fst lr" "snd lr"] by simp

text \<open>Each recursive call works on a strictly shorter segment.\<close>

termination quickSortTable
  by (relation "measure (\<lambda>(t, b, e). e - b)") (fastforce dest: part_loop_bounds_pair)+

subsection \<open>The sort\<close>

declare quickSortTable.simps [simp del]

lemma quickSortTable_step:
  assumes "b + 1 < en" "part_loop t (endpoint (t ! b)) (b + 1) en = (t1, l, r)"
  shows "quickSortTable t b en = quickSortTable (quickSortTable (swap_at t1 (l - 1) b) b (l - 1)) r en"
  using assms by (subst quickSortTable.simps) simp

lemma quickSortTable_frame: "en \<le> length t \<Longrightarrow> frame t (quickSortTable t b en) b en"
proof (induction t b en rule: quickSortTable.induct)
  case (1 t b en)
  show ?case
  proof (cases "b + 1 < en")
    case False
    then show ?thesis by (subst quickSortTable.simps) (simp add: frame_refl)
  next
    case True
    obtain t1 l r where p: "part_loop t (endpoint (t ! b)) (b + 1) en = (t1, l, r)"
      by (cases "part_loop t (endpoint (t ! b)) (b + 1) en") auto
    define t2 where "t2 = swap_at t1 (l - 1) b"
    define t3 where "t3 = quickSortTable t2 b (l - 1)"
    have bd: "l = r" "b + 1 \<le> l" "l \<le> en" "length t1 = length t"
      using part_loop_bounds [OF p] True by simp_all
    have "frame t t1 (b + 1) en"
      using part_loop_frame' [OF p] True "1.prems" by simp
    then have f1: "frame t t1 b en"
      by (rule frame_widen) (use True "1.prems" in simp_all)
    have f2: "frame t1 t2 b en"
      unfolding t2_def using bd "1.prems" by (intro frame_swap_at) simp_all
    have len2: "length t2 = length t" using f1 f2 by (simp add: frame_def)
    have ih1: "l - 1 \<le> length t2 \<Longrightarrow> frame t2 t3 b (l - 1)"
      using "1.IH"(1) [OF True refl refl p [symmetric] refl refl] by (simp add: t2_def t3_def)
    have "frame t2 t3 b (l - 1)" using ih1 len2 bd "1.prems" by simp
    then have f3: "frame t2 t3 b en"
      by (rule frame_widen) (use bd "1.prems" len2 in simp_all)
    have len3: "length t3 = length t" using f3 len2 by (simp add: frame_def)
    have ih2: "en \<le> length t3 \<Longrightarrow> frame t3 (quickSortTable t3 r en) r en"
      using "1.IH"(2) [OF True refl refl p [symmetric] refl refl refl] by (simp add: t2_def t3_def)
    have "frame t3 (quickSortTable t3 r en) r en" using ih2 len3 "1.prems" by simp
    then have f4: "frame t3 (quickSortTable t3 r en) b en"
      by (rule frame_widen) (use bd "1.prems" len3 in simp_all)
    have "quickSortTable t b en = quickSortTable t3 r en"
      unfolding t3_def t2_def by (rule quickSortTable_step [OF True p])
    with frame_trans [OF frame_trans [OF frame_trans [OF f1 f2] f3] f4] show ?thesis by simp
  qed
qed

lemma set_seg_swap_pivot:
  assumes "b \<le> p" "p < length t1"
  shows "set (seg (swap_at t1 p b) b p) \<subseteq> set (seg t1 (b + 1) (p + 1))"
proof
  fix x assume "x \<in> set (seg (swap_at t1 p b) b p)"
  then obtain k where k: "b \<le> k" "k < p" "swap_at t1 p b ! k = x"
    using assms by (auto simp: set_seg)
  show "x \<in> set (seg t1 (b + 1) (p + 1))"
  proof (cases "k = b")
    case True
    with k assms have "x = t1 ! p" by (simp add: nth_swap_at)
    with k True assms show ?thesis by (auto simp: set_seg intro!: exI [of _ p])
  next
    case False
    with k assms have "x = t1 ! k" by (simp add: nth_swap_at)
    with k False assms show ?thesis by (auto simp: set_seg intro!: exI [of _ k])
  qed
qed

lemma quickSortTable_sorted: "en \<le> length t \<Longrightarrow> sorted (map endpoint (seg (quickSortTable t b en) b en))"
proof (induction t b en rule: quickSortTable.induct)
  case (1 t b en)
  show ?case
  proof (cases "b + 1 < en")
    case False
    then have "length (seg t b en) \<le> 1" by simp
    with False show ?thesis
      by (subst quickSortTable.simps) (simp add: sorted01)
  next
    case True
    define piv where "piv = endpoint (t ! b)"
    obtain t1 l r where p: "part_loop t piv (b + 1) en = (t1, l, r)"
      by (cases "part_loop t piv (b + 1) en") auto
    define t2 where "t2 = swap_at t1 (l - 1) b"
    define t3 where "t3 = quickSortTable t2 b (l - 1)"
    define res where "res = quickSortTable t3 r en"
    have bd: "l = r" "b + 1 \<le> l" "l \<le> en" "length t1 = length t"
      using part_loop_bounds [OF p] True by simp_all
    have f1: "frame t t1 (b + 1) en"
      using part_loop_frame' [OF p] True "1.prems" by simp
    have parts: "\<forall>x \<in> set (seg t1 (b + 1) l). endpoint x \<le> piv" "\<forall>x \<in> set (seg t1 l en). piv < endpoint x"
      using part_loop_parts [OF p] True "1.prems" bd by simp_all
    have len2: "length t2 = length t" using bd by (simp add: t2_def)
    have f3: "frame t2 t3 b (l - 1)"
      unfolding t3_def using quickSortTable_frame [of "l - 1" t2 b] len2 bd "1.prems" by simp
    have len3: "length t3 = length t" using f3 len2 by (simp add: frame_def)
    have f4: "frame t3 res r en"
      unfolding res_def using quickSortTable_frame [of en t3 r] len3 "1.prems" by simp
    have s1: "sorted (map endpoint (seg t3 b (l - 1)))"
      using "1.IH"(1) [OF True refl refl p [unfolded piv_def, symmetric] refl refl] len2 bd "1.prems"
      by (simp add: t2_def t3_def piv_def)
    have s2: "sorted (map endpoint (seg res r en))"
      using "1.IH"(2) [OF True refl refl p [unfolded piv_def, symmetric] refl refl refl] len3 "1.prems"
      by (simp add: t2_def t3_def res_def piv_def)
    have A: "seg res b (l - 1) = seg t3 b (l - 1)"
      using frame_take_seg [OF f4, of "l - 1" b] bd by simp
    have "res ! (l - 1) = t3 ! (l - 1)"
      using frame_nth_below [OF f4] bd by simp
    also have "\<dots> = t2 ! (l - 1)"
      using frame_nth_above [OF f3] bd "1.prems" len2 by simp
    also have "\<dots> = t1 ! b"
      using bd "1.prems" by (simp add: t2_def nth_swap_at)
    also have "\<dots> = t ! b"
      using frame_nth_below [OF f1] by simp
    finally have pv: "endpoint (res ! (l - 1)) = piv" by (simp add: piv_def)
    have lowA: "\<forall>x \<in> set (seg res b (l - 1)). endpoint x \<le> piv"
    proof -
      have "set (seg t3 b (l - 1)) = set (seg t2 b (l - 1))"
        by (rule frame_set_seg [OF f3])
      moreover have "set (seg t2 b (l - 1)) \<subseteq> set (seg t1 (b + 1) l)"
        using set_seg_swap_pivot [of b "l - 1" t1] bd "1.prems" by (simp add: t2_def)
      ultimately show ?thesis using A parts(1) by auto
    qed
    have highB: "\<forall>x \<in> set (seg res r en). piv < endpoint x"
    proof -
      have "set (seg res r en) = set (seg t3 r en)"
        by (rule frame_set_seg [OF f4])
      moreover have "seg t3 r en = seg t2 r en"
        using frame_drop_seg [OF f3, of r en] bd by simp
      moreover have "seg t2 r en = seg t1 r en"
        using bd "1.prems" by (intro seg_cong) (auto simp: t2_def nth_swap_at)
      ultimately show ?thesis using parts(2) bd by simp
    qed
    have "seg res b en = seg res b (l - 1) @ [res ! (l - 1)] @ seg res r en"
    proof -
      have "seg res b en = seg res b (l - 1) @ seg res (l - 1) en"
        using bd by (intro seg_split) simp_all
      moreover have "seg res (l - 1) en = seg res (l - 1) l @ seg res l en"
        using bd by (intro seg_split) simp_all
      moreover have "seg res (l - 1) l = [res ! (l - 1)]"
        using seg_single [of "l - 1" res] bd "1.prems" len3 f4 by (simp add: frame_def)
      ultimately show ?thesis using bd by simp
    qed
    then have "sorted (map endpoint (seg res b en))"
      using s1 s2 A lowA highB pv by (auto simp: sorted_append) (meson le_less_trans less_imp_le)
    moreover have "quickSortTable t b en = res"
      unfolding res_def t3_def t2_def piv_def using quickSortTable_step [OF True p [unfolded piv_def]] .
    ultimately show ?thesis by simp
  qed
qed

subsection \<open>Properties\<close>

text \<open>C6: \<open>quickSortTable(table, beg, end)\<close> sorts the segment \<open>beg .. end - 1\<close> of
  the table by endpoint (unsigned comparison) and only permutes that segment: every
  other entry stays where it is and the segment holds the same chains as before.\<close>

theorem quickSortTable_correct:
  "en \<le> length t \<Longrightarrow>
   sorted (map endpoint (seg (quickSortTable t b en) b en)) \<and> frame t (quickSortTable t b en) b en"
  by (simp add: quickSortTable_sorted quickSortTable_frame)

theorem quickSortTable_correct_witness:
  "quickSortTable sort_demo 0 4 =
     [\<lparr>startpoint = 2, endpoint = 3\<rparr>, \<lparr>startpoint = 4, endpoint = 3\<rparr>,
      \<lparr>startpoint = 3, endpoint = 7\<rparr>, \<lparr>startpoint = 1, endpoint = 9\<rparr>]
   \<and> sorted (map endpoint (seg (quickSortTable sort_demo 0 4) 0 4))
   \<and> frame sort_demo (quickSortTable sort_demo 0 4) 0 4"
proof -
  have "4 \<le> length sort_demo" by (simp add: sort_demo_def)
  note c = quickSortTable_correct [OF this, of 0]
  have "quickSortTable sort_demo 0 4 =
     [\<lparr>startpoint = 2, endpoint = 3\<rparr>, \<lparr>startpoint = 4, endpoint = 3\<rparr>,
      \<lparr>startpoint = 3, endpoint = 7\<rparr>, \<lparr>startpoint = 1, endpoint = 9\<rparr>]"
    unfolding sort_demo_def by code_simp
  with c show ?thesis by simp
qed


end
