(* ===== verification/Store.thy ===== *)
theory Store
  imports Sorter
begin

text \<open>
  The table file of \<open>src/unnamed/part_000\<close>: \<open>fwrite(buffer, sizeof(chain), n, f)\<close>
  (line 213) stores each \<open>chain\<close> struct as its 8 bytes, the two \<open>chainEntry\<close>
  fields little-endian; \<open>sortRainbowTable\<close> (lines 326--354) and
  \<open>searchRainbowTable\<close> map the file with \<open>mmap\<close> and read it as an array of
  \<open>st_size / 8\<close> records.  The file system is a map from names to byte contents;
  whether \<open>fstat\<close> and \<open>mmap\<close> succeed is part of the environment \<open>os_env\<close>.
  A \<open>MAP_SHARED\<close> writable mapping writes the sorted records back to the file.
\<close>

definition chain_bytes :: "chain \<Rightarrow> u8 list" where
  "chain_bytes ch = le_bytes32 (startpoint ch) @ le_bytes32 (endpoint ch)"

definition encode_table :: "chain list \<Rightarrow> u8 list" where
  "encode_table cs = concat (map chain_bytes cs)"

text \<open>The mapped file read as \<open>chain *\<close>: whole records only.\<close>

fun decode_table :: "u8 list \<Rightarrow> chain list" where
  "decode_table bs =
     (if length bs < 8 then []
      else \<lparr>startpoint = le32 (take 4 bs), endpoint = le32 (take 4 (drop 4 bs))\<rparr> # decode_table (drop 8 bs))"

declare decode_table.simps [simp del]

type_synonym fs = "string \<rightharpoonup> u8 list"

record os_env =
  fstat_ok :: bool
  mmap_ok :: bool

text \<open>\<open>sortRainbowTable\<close>: \<open>-1\<close> when the file cannot be opened or \<open>fstat\<close> fails,
  \<open>1\<close> when \<open>mmap\<close> fails (the table is left unsorted), otherwise the first
  \<open>chainNum\<close> records are sorted in place and \<open>1\<close> is returned.  Sorting more
  records than the file holds reads past the mapping: \<open>OutOfBounds\<close>.\<close>

definition sortRainbowTable :: "os_env \<Rightarrow> fs \<Rightarrow> string \<Rightarrow> u32 \<Rightarrow> error + int \<times> fs" where
  "sortRainbowTable env files tableName chainNum =
     (case files tableName of
        None \<Rightarrow> Inr (-1, files)
      | Some bs \<Rightarrow>
          if \<not> fstat_ok env then Inr (-1, files)
          else if \<not> mmap_ok env then Inr (1, files)
          else (let t = decode_table bs
                in if length t < unat chainNum then Inl OutOfBounds
                   else Inr (1, files(tableName \<mapsto>
                     encode_table (quickSortTable t 0 (unat chainNum)) @ drop (8 * length t) bs))))"

subsection \<open>Lemmas\<close>

lemma length_chain_bytes [simp]: "length (chain_bytes ch) = 8"
  by (simp add: chain_bytes_def)

lemma length_encode_table [simp]: "length (encode_table cs) = 8 * length cs"
  by (induction cs) (simp_all add: encode_table_def)

lemma decode_chain_bytes: "decode_table (chain_bytes ch @ bs) = ch # decode_table bs"
  by (subst decode_table.simps) (simp add: chain_bytes_def)

lemma decode_encode_append: "decode_table (encode_table cs @ bs) = cs @ decode_table bs"
  by (induction cs) (simp_all add: encode_table_def decode_chain_bytes)

lemma decode_short: "length bs < 8 \<Longrightarrow> decode_table bs = []"
  by (subst decode_table.simps) simp

lemma length_decode_table: "length (decode_table bs) = length bs div 8"
proof (induction bs rule: decode_table.induct)
  case (1 bs)
  then show ?case
    by (subst decode_table.simps) (auto simp: le_div_geq)
qed

text \<open>The bytes of the records, and what is left after them.\<close>

lemma encode_decode_table: "encode_table (decode_table bs) @ drop (8 * length (decode_table bs)) bs = bs"
proof (induction bs rule: decode_table.induct)
  case (1 bs)
  show ?case
  proof (cases "length bs < 8")
    case True
    then show ?thesis by (simp add: decode_short encode_table_def)
  next
    case False
    let ?c = "\<lparr>startpoint = le32 (take 4 bs), endpoint = le32 (take 4 (drop 4 bs))\<rparr>"
    have d: "decode_table bs = ?c # decode_table (drop 8 bs)"
      using False by (subst decode_table.simps) simp
    have "chain_bytes ?c = take 4 bs @ take 4 (drop 4 bs)"
      using False by (simp add: chain_bytes_def le_bytes32_le32)
    also have "\<dots> = take 8 bs" by (simp add: take_add [of 4 4, simplified])
    finally have cb: "chain_bytes ?c = take 8 bs" .
    have "encode_table (decode_table bs) @ drop (8 * length (decode_table bs)) bs =
      take 8 bs @ (encode_table (decode_table (drop 8 bs)) @ drop (8 * length (decode_table (drop 8 bs))) (drop 8 bs))"
      using d cb by (simp add: encode_table_def add.commute [of 8])
    also have "\<dots> = bs" using "1.IH" False by simp
    finally show ?thesis .
  qed
qed

lemma decode_encode_table [simp]: "decode_table (encode_table cs) = cs"
  using decode_encode_append [of cs "[]"] by (simp add: decode_short)

lemma decode_tail_empty: "decode_table (drop (8 * length (decode_table bs)) bs) = []"
  by (rule decode_short) (simp add: length_decode_table)

lemma seg_0 [simp]: "seg xs 0 n = take n xs"
  by (simp add: seg_def)

lemma mset_frame_0:
  assumes "frame t t' 0 n"
  shows "mset t' = mset t"
proof -
  have "mset t' = mset (take n t') + mset (drop n t')" by (simp flip: mset_append)
  also have "\<dots> = mset (take n t) + mset (drop n t)" using assms by (simp add: frame_def)
  also have "\<dots> = mset t" by (simp flip: mset_append)
  finally show ?thesis .
qed

lemma sortRainbowTable_sorts:
  assumes "files tableName = Some bs" "fstat_ok env" "mmap_ok env" "unat chainNum \<le> length bs div 8"
  shows "\<exists>bs'. sortRainbowTable env files tableName chainNum = Inr (1, files(tableName \<mapsto> bs'))
    \<and> length bs' = length bs \<and> sorted (map endpoint (take (unat chainNum) (decode_table bs')))
    \<and> drop (unat chainNum) (decode_table bs') = drop (unat chainNum) (decode_table bs)
    \<and> mset (decode_table bs') = mset (decode_table bs)"
proof -
  let ?t = "decode_table bs" and ?n = "unat chainNum"
  let ?t' = "quickSortTable ?t 0 ?n"
  let ?bs' = "encode_table ?t' @ drop (8 * length ?t) bs"
  have n: "?n \<le> length ?t" using assms(4) by (simp add: length_decode_table)
  have fr: "frame ?t ?t' 0 ?n" using n by (rule quickSortTable_frame)
  have len: "length ?t' = length ?t" using fr by (simp add: frame_def)
  have dec: "decode_table ?bs' = ?t'"
    by (simp add: decode_encode_append decode_tail_empty)
  have "sortRainbowTable env files tableName chainNum = Inr (1, files(tableName \<mapsto> ?bs'))"
    using assms n by (simp add: sortRainbowTable_def Let_def)
  moreover have "length ?bs' = length bs"
    using len length_decode_table [of bs] by simp
  moreover have "sorted (map endpoint (take ?n ?t'))"
    using quickSortTable_sorted [OF n, of 0] by simp
  moreover have "drop ?n ?t' = drop ?n ?t" using fr by (simp add: frame_def)
  moreover have "mset ?t' = mset ?t" using fr by (rule mset_frame_0)
  ultimately show ?thesis using dec by auto
qed

lemma sortRainbowTable_whole:
  assumes "files tableName = Some (encode_table cs)" "fstat_ok env" "mmap_ok env" "length cs = unat chainNum"
  shows "\<exists>cs'. sortRainbowTable env files tableName chainNum = Inr (1, files(tableName \<mapsto> encode_table cs'))
    \<and> length cs' = length cs \<and> sorted (map endpoint cs') \<and> mset cs' = mset cs"
proof -
  obtain bs' where s: "sortRainbowTable env files tableName chainNum = Inr (1, files(tableName \<mapsto> bs'))"
    and l: "length bs' = 8 * length cs" and so: "sorted (map endpoint (take (unat chainNum) (decode_table bs')))"
    and m: "mset (decode_table bs') = mset cs"
    using sortRainbowTable_sorts [of files tableName "encode_table cs" env chainNum, OF assms(1-3)] assms(4) by auto
  have ld: "length (decode_table bs') = length cs" using l by (simp add: length_decode_table)
  have "encode_table (decode_table bs') = bs'"
    using encode_decode_table [of bs'] ld l by simp
  then show ?thesis using s so m ld assms(4) by (intro exI [of _ "decode_table bs'"]) simp
qed

subsection \<open>Properties\<close>


text \<open>C10: When the file opens, \<open>fstat\<close> and \<open>mmap\<close> succeed and it holds at least
  \<open>chainNum\<close> records, \<open>sortRainbowTable\<close> returns 1 and rewrites the file in place:
  same size, the first \<open>chainNum\<close> records sorted by endpoint, the records after
  them untouched, and the same multiset of records.\<close>

theorem sortRainbowTable_correct:
  assumes "files tableName = Some bs" "fstat_ok env" "mmap_ok env" "unat chainNum \<le> length bs div 8"
  shows "\<exists>bs'. sortRainbowTable env files tableName chainNum = Inr (1, files(tableName \<mapsto> bs'))
    \<and> length bs' = length bs \<and> sorted (map endpoint (take (unat chainNum) (decode_table bs')))
    \<and> drop (unat chainNum) (decode_table bs') = drop (unat chainNum) (decode_table bs)
    \<and> mset (decode_table bs') = mset (decode_table bs)"
  using assms by (rule sortRainbowTable_sorts)

theorem sortRainbowTable_correct_witness:
  "\<exists>bs'. sortRainbowTable \<lparr>fstat_ok = True, mmap_ok = True\<rparr> [''t.rt'' \<mapsto> encode_table sort_demo] ''t.rt'' 4 =
      Inr (1, [''t.rt'' \<mapsto> bs']) \<and> length bs' = 32
    \<and> sorted (map endpoint (take 4 (decode_table bs'))) \<and> mset (decode_table bs') = mset sort_demo"
proof -
  have l: "unat (4 :: u32) \<le> length (encode_table sort_demo) div 8" by (simp add: sort_demo_def)
  obtain bs' where "sortRainbowTable \<lparr>fstat_ok = True, mmap_ok = True\<rparr> [''t.rt'' \<mapsto> encode_table sort_demo] ''t.rt'' 4 =
      Inr (1, [''t.rt'' \<mapsto> bs'])" "length bs' = length (encode_table sort_demo)"
    "sorted (map endpoint (take (unat (4 :: u32)) (decode_table bs')))"
    "mset (decode_table bs') = mset (decode_table (encode_table sort_demo))"
    using sortRainbowTable_correct [of "[''t.rt'' \<mapsto> encode_table sort_demo]" "''t.rt''" "encode_table sort_demo"
      "\<lparr>fstat_ok = True, mmap_ok = True\<rparr>" 4] l by auto
  moreover have "length (encode_table sort_demo) = 32" by (simp add: sort_demo_def)
  ultimately show ?thesis by auto
qed



end
