(* ===== verification/Names.thy ===== *)
theory Names
  imports Prelude
begin

text \<open>
  The table-name codec of \<open>src/unnamed/part_000\<close>: \<open>generateTableName\<close>
  (lines 110--117) prints \<open>"%s.%u.%u.%u.rt"\<close> into a 512-byte buffer with
  \<open>snprintf\<close>; \<open>parseTablename\<close> (lines 486--504) takes the \<open>basename\<close> of the path,
  replaces its first \<open>'.'\<close> by a blank and reads it back with
  \<open>sscanf(..., "%s %u.%u.%u.rt", ...)\<close> into \<open>hashFuncName[MAX_FUNC_NAME]\<close>,
  \<open>chainNum\<close>, \<open>chainLen\<close> and a local index.  The C library functions are modelled
  by their POSIX meaning on the inputs at hand: \<open>snprintf\<close> truncates to 511
  characters; \<open>basename\<close> drops trailing slashes and the directory part; the
  conversions of \<open>sscanf\<close> stop at the first directive that fails, leaving the
  remaining outputs unassigned (\<open>None\<close>: the caller's variable keeps its
  indeterminate value).  \<open>%u\<close> reads an optional sign and decimal digits and keeps
  the value modulo \<open>2^32\<close> (a numeral above \<open>ULONG_MAX\<close> is not modelled).  A
  \<open>%s\<close> conversion longer than 63 characters overflows \<open>hashFuncName\<close>:
  \<open>OutOfBounds\<close>.
\<close>

definition MAX_FUNC_NAME :: nat where "MAX_FUNC_NAME = 64"

definition generateTableName :: "string \<Rightarrow> u32 \<Rightarrow> u32 \<Rightarrow> u32 \<Rightarrow> string" where
  "generateTableName hashName chainNum chainLen index =
     take 511 (hashName @ ''.'' @ dec_string (unat chainNum) @ ''.'' @ dec_string (unat chainLen)
               @ ''.'' @ dec_string (unat index) @ ''.rt'')"

text \<open>\<open>isspace\<close> in the C locale, and decimal digits.\<close>

definition is_space :: "char \<Rightarrow> bool" where
  "is_space ch \<longleftrightarrow> ch \<in> {CHR '' '', CHR 0x09, CHR 0x0A, CHR 0x0B, CHR 0x0C, CHR 0x0D}"

definition is_digit :: "char \<Rightarrow> bool" where
  "is_digit ch \<longleftrightarrow> (48 :: nat) \<le> of_char ch \<and> (of_char ch :: nat) \<le> 57"

definition digit_val :: "char \<Rightarrow> nat" where
  "digit_val ch = of_char ch - 48"

text \<open>\<open>strchr(s, c)\<close> as the index of the first occurrence.\<close>

fun strchr :: "string \<Rightarrow> char \<Rightarrow> nat option" where
  "strchr [] c = None"
| "strchr (x # xs) c = (if x = c then Some 0 else map_option Suc (strchr xs c))"

text \<open>POSIX \<open>basename\<close>.\<close>

definition basename :: "string \<Rightarrow> string" where
  "basename path =
     (let p = rev (dropWhile (\<lambda>ch. ch = CHR ''/'') (rev path))
      in if path = [] then ''.'' else if p = [] then ''/''
         else rev (takeWhile (\<lambda>ch. ch \<noteq> CHR ''/'') (rev p)))"

text \<open>\<open>%s\<close>: skip blanks, then a non-empty run of non-blanks.\<close>

definition scan_str :: "string \<Rightarrow> (string \<times> string) option" where
  "scan_str s =
     (let s' = dropWhile is_space s; w = takeWhile (\<lambda>ch. \<not> is_space ch) s'
      in if w = [] then None else Some (w, drop (length w) s'))"

text \<open>\<open>%u\<close>: skip blanks, an optional sign, a non-empty run of digits.\<close>

definition scan_uint :: "string \<Rightarrow> (u32 \<times> string) option" where
  "scan_uint s =
     (let s1 = dropWhile is_space s;
          (neg, s2) = (case s1 of ch # r \<Rightarrow> if ch = CHR ''-'' then (True, r)
                                             else if ch = CHR ''+'' then (False, r) else (False, s1)
                                | [] \<Rightarrow> (False, s1));
          ds = takeWhile is_digit s2;
          v = foldl (\<lambda>acc ch. 10 * acc + digit_val ch) 0 ds
      in if ds = [] then None
         else Some (if neg then - of_nat v else of_nat v, drop (length ds) s2))"

definition scan_lit :: "char \<Rightarrow> string \<Rightarrow> string option" where
  "scan_lit ch s = (case s of c # r \<Rightarrow> if c = ch then Some r else None | [] \<Rightarrow> None)"

text \<open>\<open>sscanf(s, "%s %u.%u.%u.rt", name, &chainNum, &chainLen, &index)\<close>: the
  outputs assigned before the first failing directive.\<close>

definition scan_table_name :: "string \<Rightarrow> string option \<times> u32 option \<times> u32 option" where
  "scan_table_name s =
     (case scan_str s of
        None \<Rightarrow> (None, None, None)
      | Some (name, r1) \<Rightarrow>
          (case scan_uint (dropWhile is_space r1) of
             None \<Rightarrow> (Some name, None, None)
           | Some (n, r2) \<Rightarrow>
               (case scan_lit CHR ''.'' r2 of
                  None \<Rightarrow> (Some name, Some n, None)
                | Some r3 \<Rightarrow>
                    (case scan_uint r3 of
                       None \<Rightarrow> (Some name, Some n, None)
                     | Some (l, _) \<Rightarrow> (Some name, Some n, Some l)))))"

text \<open>\<open>parseTablename\<close>: \<open>-1\<close> when the basename has no \<open>'.'\<close>, otherwise \<open>1\<close>
  whatever \<open>sscanf\<close> managed to assign.\<close>

definition parseTablename :: "string \<Rightarrow> error + int \<times> string option \<times> u32 option \<times> u32 option" where
  "parseTablename tablename =
     (let base = basename tablename
      in case strchr base CHR ''.'' of
           None \<Rightarrow> Inr (-1, None, None, None)
         | Some k \<Rightarrow>
             (let (name, cn, cl) = scan_table_name (base[k := CHR '' ''])
              in if (case name of Some w \<Rightarrow> MAX_FUNC_NAME \<le> length w | None \<Rightarrow> False)
                 then Inl OutOfBounds
                 else Inr (1, name, cn, cl)))"

subsection \<open>Lemmas\<close>

lemma digit_char [simp]: "d < 10 \<Longrightarrow> is_digit (char_of (48 + d)) \<and> digit_val (char_of (48 + d)) = d"
  by (simp add: is_digit_def digit_val_def of_char_of)

lemma dec_string_digits: "c \<in> set (dec_string n) \<Longrightarrow> is_digit c"
proof (induction n rule: dec_string.induct)
  case (1 n)
  then show ?case by (subst (asm) dec_string.simps) (auto split: if_splits)
qed

lemma dec_string_nonempty: "dec_string n \<noteq> []"
  by (subst dec_string.simps) simp

lemma digit_not_special:
  "is_digit c \<Longrightarrow> \<not> is_space c \<and> c \<noteq> CHR ''.'' \<and> c \<noteq> CHR ''-'' \<and> c \<noteq> CHR ''+'' \<and> c \<noteq> CHR ''/''"
  by (auto simp: is_digit_def is_space_def)

lemma foldl_dec_string:
  "foldl (\<lambda>acc ch. 10 * acc + digit_val ch) a (dec_string n) = a * 10 ^ length (dec_string n) + n"
proof (induction n arbitrary: a rule: dec_string.induct)
  case (1 n)
  show ?case
  proof (cases "n < 10")
    case True
    then show ?thesis by (subst (1 2) dec_string.simps) simp
  next
    case False
    then have d: "dec_string n = dec_string (n div 10) @ [char_of (48 + n mod 10)]"
      by (subst dec_string.simps) simp
    show ?thesis using "1.IH" [OF False, of a] by (simp add: d algebra_simps)
  qed
qed

lemma length_dec_string_le: "n < 10 ^ k \<Longrightarrow> 0 < k \<Longrightarrow> length (dec_string n) \<le> k"
proof (induction n arbitrary: k rule: dec_string.induct)
  case (1 n)
  show ?case
  proof (cases "n < 10")
    case True
    with "1.prems" show ?thesis by (subst dec_string.simps) simp
  next
    case False
    then obtain k' where k: "k = Suc k'" using "1.prems" by (cases k) auto
    with False "1.prems" have "n div 10 < 10 ^ k'" "0 < k'"
      by (auto simp: less_mult_imp_div_less mult.commute intro: ccontr)
    with "1.IH" False k show ?thesis by (subst dec_string.simps) simp
  qed
qed

lemma length_dec_string_u32: "length (dec_string (unat (w :: u32))) \<le> 10"
  using unat_u32_less [of w] by (intro length_dec_string_le) simp_all

text \<open>Reading a numeral back with \<open>%u\<close>.\<close>

lemma takeWhile_digits:
  "(\<forall>c \<in> set ds. is_digit c) \<Longrightarrow> (rest = [] \<or> \<not> is_digit (hd rest)) \<Longrightarrow> takeWhile is_digit (ds @ rest) = ds"
  by (induction ds) (auto simp: neq_Nil_conv, cases rest, auto)

lemma scan_uint_dec:
  assumes "rest = [] \<or> \<not> is_digit (hd rest)" "n < 2 ^ 32"
  shows "scan_uint (dec_string n @ rest) = Some (of_nat n, rest)"
proof -
  obtain c cs where dc: "dec_string n = c # cs" using dec_string_nonempty [of n] by (cases "dec_string n") auto
  have dig: "\<forall>x \<in> set (dec_string n). is_digit x" using dec_string_digits by blast
  then have c: "is_digit c" using dc by simp
  have "dropWhile is_space (dec_string n @ rest) = dec_string n @ rest"
    using dc c digit_not_special by simp
  moreover have "takeWhile is_digit (dec_string n @ rest) = dec_string n"
    using dig assms(1) by (rule takeWhile_digits)
  ultimately show ?thesis
    using dc c digit_not_special [OF c] dec_string_nonempty [of n] foldl_dec_string [of 0 n]
    by (simp add: scan_uint_def Let_def)
qed

lemma scan_str_word:
  assumes "w \<noteq> []" "\<forall>c \<in> set w. \<not> is_space c" "is_space sp"
  shows "scan_str (w @ sp # rest) = Some (w, sp # rest)"
proof -
  obtain c cs where w: "w = c # cs" using assms(1) by (cases w) auto
  have "takeWhile (\<lambda>ch. \<not> is_space ch) (w @ sp # rest) = w"
    using assms(2,3) by (induction w) auto
  then show ?thesis using assms w by (simp add: scan_str_def)
qed

lemma strchr_first: "c \<notin> set xs \<Longrightarrow> strchr (xs @ c # ys) c = Some (length xs)"
  by (induction xs) auto

lemma basename_last:
  assumes "x \<noteq> []" "CHR ''/'' \<notin> set x" "p = [] \<or> last p = CHR ''/''"
  shows "basename (p @ x) = x"
proof -
  have "last x \<noteq> CHR ''/''" using assms(1,2) last_in_set [of x] by metis
  then have "dropWhile (\<lambda>ch. ch = CHR ''/'') (rev x @ rev p) = rev x @ rev p"
    using assms(1) by (cases "rev x") auto
  moreover have "takeWhile (\<lambda>ch. ch \<noteq> CHR ''/'') (rev x @ rev p) = rev x"
  proof -
    have "takeWhile (\<lambda>ch. ch \<noteq> CHR ''/'') (rev x @ rev p) = rev x @ takeWhile (\<lambda>ch. ch \<noteq> CHR ''/'') (rev p)"
      using assms(2) by (intro takeWhile_append2) auto
    moreover have "takeWhile (\<lambda>ch. ch \<noteq> CHR ''/'') (rev p) = []"
      using assms(3) by (cases p rule: rev_cases) auto
    ultimately show ?thesis by simp
  qed
  ultimately show ?thesis using assms(1) by (simp add: basename_def Let_def)
qed



lemma dec_string_hd_digit: "\<not> is_space (hd (dec_string n @ rest)) \<and> is_digit (hd (dec_string n @ rest))"
  using dec_string_nonempty [of n] dec_string_digits [of _ n] digit_not_special
  by (cases "dec_string n") auto

lemma generateTableName_short:
  "length hashName < MAX_FUNC_NAME \<Longrightarrow>
   generateTableName hashName chainNum chainLen index =
     hashName @ ''.'' @ dec_string (unat chainNum) @ ''.'' @ dec_string (unat chainLen)
       @ ''.'' @ dec_string (unat index) @ ''.rt''"
  using length_dec_string_u32 [of chainNum] length_dec_string_u32 [of chainLen]
    length_dec_string_u32 [of index]
  by (simp add: generateTableName_def MAX_FUNC_NAME_def)

lemma parse_generated_name:
  assumes "hashName \<noteq> []" "length hashName < MAX_FUNC_NAME"
    "\<forall>c \<in> set hashName. \<not> is_space c \<and> c \<noteq> CHR ''.'' \<and> c \<noteq> CHR ''/''"
    "dir = [] \<or> last dir = CHR ''/''"
  shows "parseTablename (dir @ generateTableName hashName chainNum chainLen index) =
           Inr (1, Some hashName, Some chainNum, Some chainLen)"
proof -
  let ?D = "\<lambda>w :: u32. dec_string (unat w)"
  let ?rest = "?D chainNum @ ''.'' @ ?D chainLen @ ''.'' @ ?D index @ ''.rt''"
  have g: "generateTableName hashName chainNum chainLen index = hashName @ CHR ''.'' # ?rest"
    using generateTableName_short [OF assms(2)] by simp
  have slash: "CHR ''/'' \<notin> set (hashName @ CHR ''.'' # ?rest)"
    using assms(3) dec_string_digits digit_not_special by fastforce
  have b: "basename (dir @ generateTableName hashName chainNum chainLen index) = hashName @ CHR ''.'' # ?rest"
    unfolding g using slash assms(4) by (intro basename_last) simp_all
  have dot: "CHR ''.'' \<notin> set hashName" using assms(3) by blast
  have repl: "(hashName @ CHR ''.'' # ?rest)[length hashName := CHR '' ''] = hashName @ CHR '' '' # ?rest"
    by simp
  have s1: "scan_str (hashName @ CHR '' '' # ?rest) = Some (hashName, CHR '' '' # ?rest)"
    using assms(1,3) by (intro scan_str_word) (auto simp: is_space_def)
  have sp: "dropWhile is_space (CHR '' '' # ?rest) = ?rest"
    using dec_string_hd_digit [of "unat chainNum"] by (cases "?D chainNum") (auto simp: is_space_def)
  have s2: "scan_uint ?rest = Some (chainNum, ''.'' @ ?D chainLen @ ''.'' @ ?D index @ ''.rt'')"
    using scan_uint_dec [of "''.'' @ ?D chainLen @ ''.'' @ ?D index @ ''.rt''" "unat chainNum"]
      unat_u32_less [of chainNum] by (simp add: is_digit_def)
  have s3: "scan_uint (?D chainLen @ ''.'' @ ?D index @ ''.rt'') = Some (chainLen, ''.'' @ ?D index @ ''.rt'')"
    using scan_uint_dec [of "''.'' @ ?D index @ ''.rt''" "unat chainLen"]
      unat_u32_less [of chainLen] by (simp add: is_digit_def)
  have "scan_table_name (hashName @ CHR '' '' # ?rest) = (Some hashName, Some chainNum, Some chainLen)"
    using s1 sp s2 s3 by (simp add: scan_table_name_def scan_lit_def)
  then show ?thesis
    using b strchr_first [OF dot, of ?rest] repl assms(2) by (simp add: parseTablename_def Let_def)
qed

lemma dec_string_inj:
  assumes "dec_string a = dec_string b"
  shows "a = b"
proof -
  have "\<And>n. foldl (\<lambda>acc ch. 10 * acc + digit_val ch) 0 (dec_string n) = n"
    using foldl_dec_string [of 0] by (simp only: mult_zero_left add_0)
  then show ?thesis using assms by metis
qed

subsection \<open>Properties\<close>

text \<open>C15: Round trip of the table name: for a hash-function name that is non-empty,
  shorter than \<open>MAX_FUNC_NAME\<close> and free of blanks, dots and slashes,
  \<open>parseTablename\<close> applied to the name \<open>generateTableName\<close> prints (in any
  directory) returns 1 and recovers the function name, \<open>chainNum\<close> and
  \<open>chainLen\<close>.\<close>

theorem parseTablename_generateTableName:
  assumes "hashName \<noteq> []" "length hashName < MAX_FUNC_NAME"
    "\<forall>c \<in> set hashName. \<not> is_space c \<and> c \<noteq> CHR ''.'' \<and> c \<noteq> CHR ''/''"
    "dir = [] \<or> last dir = CHR ''/''"
  shows "parseTablename (dir @ generateTableName hashName chainNum chainLen index) =
           Inr (1, Some hashName, Some chainNum, Some chainLen)"
  using assms by (rule parse_generated_name)

theorem parseTablename_generateTableName_witness:
  "parseTablename (''/tmp/'' @ generateTableName ''wikihash'' 1000 100 0) = Inr (1, Some ''wikihash'', Some 1000, Some 100)"
proof -
  have "\<forall>c \<in> set ''wikihash''. \<not> is_space c \<and> c \<noteq> CHR ''.'' \<and> c \<noteq> CHR ''/''"
    by (simp add: is_space_def)
  moreover have "length ''wikihash'' < MAX_FUNC_NAME" by (simp add: MAX_FUNC_NAME_def)
  ultimately show ?thesis by (intro parseTablename_generateTableName) simp_all
qed


end
