(* ===== verification/Lookup.thy ===== *)
theory Lookup
  imports Chain
begin

text \<open>
  The lookup engine of \<open>src/unnamed/part_000\<close>: \<open>searchTable\<close> (lines 399--419),
  the binary search for an endpoint with its backward walk to the first equal entry,
  and \<open>searchHashInMemory\<close> (lines 447--483), which tries every position \<open>j\<close> of
  the target in an unknown chain, looks the candidate endpoint up and regenerates
  the chains of the matching run.  The table is the memory-mapped array as a list of
  records; a read past it is the error \<open>OutOfBounds\<close> (\<open>rd\<close>).  \<open>beg\<close>,
  \<open>end\<close> and \<open>index\<close> are \<open>unsigned int\<close> and stay 32-bit words, so the sum
  \<open>beg + end\<close> and \<open>index++\<close> wrap as in C; \<open>mid\<close> is a \<open>long\<close> (an
  \<open>int\<close> here).  Because of the wrap-around, neither the binary search nor the
  do-while scan has a termination argument for arbitrary inputs: both are
  \<open>partial_function (option)\<close>, \<open>None\<close> being a loop that does not return, and
  termination is proved for tables of at most \<open>2^31\<close> chains.  A result
  \<open>Inr (Some x)\<close> is the C return value 1 with \<open>x\<close> stored through the pointer
  argument, \<open>Inr None\<close> the return value 0.  The lemmas show soundness (every
  seed returned hashes to the target), the exact behaviour of the binary search,
  completeness (the walk of a target that lies on a chain meets that chain's endpoint,
  the scan reaches the chain), and termination.
\<close>

text \<open>\<open>while (mid >= 0 && endpoint == table[mid--].endpoint);\<close>: the value of
  \<open>mid\<close> when the loop stops.\<close>

function walk_back :: "chain list \<Rightarrow> u32 \<Rightarrow> int \<Rightarrow> error + int" where
  "walk_back table endpt mid =
     (if 0 \<le> mid then
        (case rd table (nat mid) of
           Inl e \<Rightarrow> Inl e
         | Inr ch \<Rightarrow> if endpt = endpoint ch then walk_back table endpt (mid - 1) else Inr (mid - 1))
      else Inr mid)"
  by pat_completeness auto
termination
  by (relation "measure (\<lambda>(_, _, mid). nat (mid + 1))") auto

declare walk_back.simps [simp del]

text \<open>The \<open>while (beg < end)\<close> loop of \<open>searchTable\<close>.\<close>

partial_function (option) search_loop ::
  "chain list \<Rightarrow> u32 \<Rightarrow> u32 \<Rightarrow> u32 \<Rightarrow> (error + u32 option) option" where
  "search_loop table endpt beg en =
     (if beg < en then
        (let mid = (beg + en) div 2 in
         case rd table (unat mid) of
           Inl e \<Rightarrow> Some (Inl e)
         | Inr ch \<Rightarrow>
             if endpt < endpoint ch then search_loop table endpt beg mid
             else if endpoint ch < endpt then search_loop table endpt (mid + 1) en
             else Some (case walk_back table endpt (int (unat mid)) of
                          Inl e \<Rightarrow> Inl e
                        | Inr m \<Rightarrow> Inr (Some (if m < 0 then 0 else of_int (m + 1)))))
      else Some (Inr None))"

text \<open>\<open>unsigned int beg = 0, end = chainNum - 1\<close>, the subtraction in 32 bits.\<close>

definition searchTable :: "chain list \<Rightarrow> u32 \<Rightarrow> u32 \<Rightarrow> (error + u32 option) option" where
  "searchTable table chainNum endpt = search_loop table endpt 0 (chainNum - 1)"

text \<open>The inner loop of \<open>searchHashInMemory\<close>:
  \<open>for (i = j; i < chainLen-1; i++) { r = reduce(tmpHash, hashLen, i); tmpHash = hashFunc(r, buf); }\<close>.\<close>

fun target_walk :: "hash_fn \<Rightarrow> u32 \<Rightarrow> nat \<Rightarrow> nat \<Rightarrow> digest \<Rightarrow> digest" where
  "target_walk hashFunc hashLen i 0 tmpHash = tmpHash"
| "target_walk hashFunc hashLen i (Suc n) tmpHash =
     target_walk hashFunc hashLen (Suc i) n (hashFunc (reduce tmpHash hashLen (of_nat i)))"

text \<open>The candidate endpoint for position \<open>j\<close>: the walk of the target from round
  \<open>j\<close> and the final \<open>r = reduce(tmpHash, hashLen, i)\<close>, where the loop has left
  \<open>i = chainLen - 1\<close>.\<close>

definition candidate :: "hash_fn \<Rightarrow> u32 \<Rightarrow> u32 \<Rightarrow> digest \<Rightarrow> nat \<Rightarrow> u32" where
  "candidate hashFunc chainLen hashLen targetHash j =
     (let L = unat chainLen
      in reduce (target_walk hashFunc hashLen j (L - 1 - j) targetHash) hashLen (of_nat (L - 1)))"

text \<open>The do-while loop: regenerate \<open>table[index++]\<close>, continue while
  \<open>table[index].endpoint == r\<close>.  \<open>Inr None\<close>: the run is exhausted.\<close>

partial_function (option) scan_run ::
  "chain list \<Rightarrow> u32 \<Rightarrow> hash_fn \<Rightarrow> u32 \<Rightarrow> digest \<Rightarrow> u32 \<Rightarrow> u32 \<Rightarrow> (error + u32 option) option" where
  "scan_run table chainLen hashFunc hashLen targetHash r index =
     (case rd table (unat index) of
        Inl e \<Rightarrow> Some (Inl e)
      | Inr ch \<Rightarrow>
          (case regenerateChain (startpoint ch) chainLen hashFunc hashLen targetHash of
             Some seed \<Rightarrow> Some (Inr (Some seed))
           | None \<Rightarrow>
               (case rd table (unat (index + 1)) of
                  Inl e \<Rightarrow> Some (Inl e)
                | Inr ch' \<Rightarrow>
                    if endpoint ch' = r
                    then scan_run table chainLen hashFunc hashLen targetHash r (index + 1)
                    else Some (Inr None))))"

text \<open>The outer loop \<open>for (j = chainLen - 1; j >= 0; j--)\<close>: \<open>search_from \<dots> n\<close>
  runs the iterations \<open>j = n - 1, \<dots>, 0\<close>.\<close>

fun search_from ::
  "chain list \<Rightarrow> u32 \<Rightarrow> u32 \<Rightarrow> hash_fn \<Rightarrow> u32 \<Rightarrow> digest \<Rightarrow> nat \<Rightarrow> (error + u32 option) option" where
  "search_from table chainNum chainLen hashFunc hashLen targetHash 0 = Some (Inr None)"
| "search_from table chainNum chainLen hashFunc hashLen targetHash (Suc j) =
     (let r = candidate hashFunc chainLen hashLen targetHash j in
      case searchTable table chainNum r of
        None \<Rightarrow> None
      | Some (Inl e) \<Rightarrow> Some (Inl e)
      | Some (Inr None) \<Rightarrow> search_from table chainNum chainLen hashFunc hashLen targetHash j
      | Some (Inr (Some index)) \<Rightarrow>
          (case scan_run table chainLen hashFunc hashLen targetHash r index of
             None \<Rightarrow> None
           | Some (Inl e) \<Rightarrow> Some (Inl e)
           | Some (Inr (Some seed)) \<Rightarrow> Some (Inr (Some seed))
           | Some (Inr None) \<Rightarrow> search_from table chainNum chainLen hashFunc hashLen targetHash j))"

text \<open>\<open>j = chainLen - 1\<close> is an \<open>int\<close>: for \<open>chainLen = 0\<close> it is \<open>-1\<close> and the
  loop does not run.\<close>

definition searchHashInMemory ::
  "chain list \<Rightarrow> u32 \<Rightarrow> u32 \<Rightarrow> hash_fn \<Rightarrow> u32 \<Rightarrow> digest \<Rightarrow> (error + u32 option) option" where
  "searchHashInMemory table chainNum chainLen hashFunc hashLen targetHash =
     (let j0 = sint (chainLen - 1)
      in if j0 < 0 then Some (Inr None)
         else search_from table chainNum chainLen hashFunc hashLen targetHash (nat j0 + 1))"

text \<open>The number of entries of the first \<open>m\<close> whose endpoint is below \<open>ep\<close>: in a
  sorted table, the index of the first entry with endpoint \<open>ep\<close>.\<close>

definition count_less :: "nat \<Rightarrow> chain list \<Rightarrow> u32 \<Rightarrow> nat" where
  "count_less m t ep = length (filter (\<lambda>e. e < ep) (take m (map endpoint t)))"

subsection \<open>The binary search\<close>

lemma sorted_filter_less_nth:
  "sorted xs \<Longrightarrow> k < length xs \<Longrightarrow> (k < length (filter (\<lambda>x. x < e) xs) \<longleftrightarrow> xs ! k < e)"
proof (induction xs arbitrary: k)
  case Nil
  then show ?case by simp
next
  case (Cons x xs)
  show ?case
  proof (cases "x < e")
    case True
    with Cons show ?thesis by (cases k) auto
  next
    case False
    with Cons.prems(1) have "filter (\<lambda>x. x < e) xs = []"
      by (auto simp: filter_empty_conv)
    moreover have "\<not> (x # xs) ! k < e"
      using False Cons.prems by (cases k) (auto dest: bspec [where x = "xs ! (k - 1)"])
    ultimately show ?thesis using False by simp
  qed
qed

lemma sorted_take_endpoint:
  "sorted (take m (map endpoint t)) \<Longrightarrow> i \<le> j \<Longrightarrow> j < m \<Longrightarrow> m \<le> length t \<Longrightarrow>
   endpoint (t ! i) \<le> endpoint (t ! j)"
  using sorted_nth_mono [of "take m (map endpoint t)" i j] by simp

lemma count_less_nth:
  "sorted (take m (map endpoint t)) \<Longrightarrow> m \<le> length t \<Longrightarrow> k < m \<Longrightarrow>
   (k < count_less m t ep \<longleftrightarrow> endpoint (t ! k) < ep)"
  unfolding count_less_def
  using sorted_filter_less_nth [of "take m (map endpoint t)" k ep] by simp

lemma count_less_le: "count_less m t ep \<le> m"
  unfolding count_less_def using length_filter_le [of "\<lambda>e. e < ep" "take m (map endpoint t)"] by simp

lemma walk_back_run:
  assumes "sorted (take m (map endpoint t))" "m \<le> length t" "mid < int m" "-1 \<le> mid"
    "int (count_less m t ep) \<le> mid + 1"
    "\<forall>k. count_less m t ep \<le> k \<and> int k \<le> mid \<longrightarrow> endpoint (t ! k) = ep"
  shows "walk_back t ep mid = Inr (if count_less m t ep = 0 then -1 else int (count_less m t ep) - 2)"
  using assms
proof (induction t ep mid rule: walk_back.induct)
  case (1 t ep mid)
  note srt = "1.prems"(1) and len = "1.prems"(2)
  show ?case
  proof (cases "0 \<le> mid")
    case False
    with "1.prems" show ?thesis by (simp add: walk_back.simps)
  next
    case True
    then have k1: "nat mid < m" using "1.prems"(3) by (simp add: nat_less_iff)
    then have k: "nat mid < m" "nat mid < length t" using len by simp_all
    show ?thesis
    proof (cases "endpoint (t ! nat mid) = ep")
      case True
      then have "\<not> nat mid < count_less m t ep"
        using count_less_nth [OF srt len k(1)] by simp
      then have "int (count_less m t ep) \<le> mid" using \<open>0 \<le> mid\<close> by linarith
      then have "walk_back t ep (mid - 1) = Inr (if count_less m t ep = 0 then -1 else int (count_less m t ep) - 2)"
        using "1.IH" [OF \<open>0 \<le> mid\<close>, of "t ! nat mid"] "1.prems" k True \<open>0 \<le> mid\<close> by simp
      with True \<open>0 \<le> mid\<close> k show ?thesis by (subst walk_back.simps) simp
    next
      case False
      with "1.prems"(6) have "\<not> (count_less m t ep \<le> nat mid)" using \<open>0 \<le> mid\<close> by auto
      with "1.prems"(5) have "int (count_less m t ep) = mid + 1" by linarith
      with False \<open>0 \<le> mid\<close> k show ?thesis by (subst walk_back.simps) simp
    qed
  qed
qed


lemma unat_mid:
  "unat b + unat en < 2 ^ 32 \<Longrightarrow> unat ((b + en) div 2 :: u32) = (unat b + unat en) div 2"
  by (simp add: unat_div unat_add_lem [THEN iffD1])

lemma search_loop_sorted:
  assumes srt: "sorted (take m (map endpoint t))" and len: "m \<le> length t"
  shows "unat en \<le> m \<Longrightarrow> unat b \<le> unat en \<Longrightarrow> unat en < 2 ^ 31 \<Longrightarrow>
    search_loop t ep b en = Some (Inr (if \<exists>k. unat b \<le> k \<and> k < unat en \<and> endpoint (t ! k) = ep
       then Some (of_nat (count_less m t ep - 1)) else None))"
proof (induction "unat en - unat b" arbitrary: b en rule: less_induct)
  case less
  show ?case
  proof (cases "b < en")
    case False
    then have "unat en \<le> unat b" by (simp add: word_less_nat_alt not_less)
    with False show ?thesis by (subst search_loop.simps) auto
  next
    case True
    define mid where "mid = (b + en) div 2"
    have bn: "unat b < unat en" using True by (simp add: word_less_nat_alt)
    have um: "unat mid = (unat b + unat en) div 2"
      unfolding mid_def using less.prems(3) bn by (intro unat_mid) simp
    have m1: "unat b \<le> unat mid" "unat mid < unat en" using um bn by simp_all
    have mlen: "unat mid < m" using m1 less.prems(1) by simp
    have rdm: "rd t (unat mid) = Inr (t ! unat mid)" using mlen len by simp
    consider (lt) "ep < endpoint (t ! unat mid)" | (gt) "endpoint (t ! unat mid) < ep"
      | (eq) "endpoint (t ! unat mid) = ep"
      using less_linear by blast
    then show ?thesis
    proof cases
      case lt
      have rec: "search_loop t ep b mid = Some (Inr (if \<exists>k. unat b \<le> k \<and> k < unat mid \<and> endpoint (t ! k) = ep
          then Some (of_nat (count_less m t ep - 1)) else None))"
        using less.hyps [of mid b] m1 less.prems by simp
      have "(\<exists>k. unat b \<le> k \<and> k < unat en \<and> endpoint (t ! k) = ep) \<longleftrightarrow>
            (\<exists>k. unat b \<le> k \<and> k < unat mid \<and> endpoint (t ! k) = ep)"
      proof (rule ex_range_cut_high)
        show "endpoint (t ! k) \<noteq> ep" if "unat mid \<le> k" "k < unat en" for k
          using sorted_take_endpoint [OF srt that(1) _ len] that(2) less.prems(1) lt by fastforce
      qed (use m1 in simp)
      with rec lt rdm True show ?thesis
        by (subst search_loop.simps) (simp add: Let_def flip: mid_def)
    next
      case gt
      have um1: "unat (mid + 1) = unat mid + 1"
        using m1 less.prems(3) by (simp add: unat_add_lem [THEN iffD1])
      have rec: "search_loop t ep (mid + 1) en = Some (Inr (if \<exists>k. unat (mid + 1) \<le> k \<and> k < unat en \<and> endpoint (t ! k) = ep
          then Some (of_nat (count_less m t ep - 1)) else None))"
        using less.hyps [of en "mid + 1"] m1 less.prems um1 by simp
      have "(\<exists>k. unat b \<le> k \<and> k < unat en \<and> endpoint (t ! k) = ep) \<longleftrightarrow>
            (\<exists>k. unat (mid + 1) \<le> k \<and> k < unat en \<and> endpoint (t ! k) = ep)"
      proof (rule ex_range_cut_low)
        show "endpoint (t ! k) \<noteq> ep" if "k < unat (mid + 1)" for k
          using sorted_take_endpoint [OF srt _ _ len, of k "unat mid"] that um1 mlen gt by fastforce
      qed (use m1 um1 in simp)
      moreover have "\<not> ep < endpoint (t ! unat mid)" using gt by simp
      ultimately show ?thesis using rec gt rdm True
        by (subst search_loop.simps) (simp add: Let_def flip: mid_def)
    next
      case eq
      let ?c = "count_less m t ep"
      have found: "\<exists>k. unat b \<le> k \<and> k < unat en \<and> endpoint (t ! k) = ep"
        using m1 eq by blast
      have "\<not> unat mid < ?c" using count_less_nth [OF srt len mlen] eq by simp
      then have "?c \<le> unat mid + 1" by simp
      then have c_le: "int ?c \<le> int (unat mid) + 1" by linarith
      have run: "\<forall>k. ?c \<le> k \<and> int k \<le> int (unat mid) \<longrightarrow> endpoint (t ! k) = ep"
      proof (intro allI impI)
        fix k assume k: "?c \<le> k \<and> int k \<le> int (unat mid)"
        then have km: "k \<le> unat mid" by linarith
        then have "endpoint (t ! k) \<le> ep"
          using sorted_take_endpoint [OF srt km mlen len] eq by simp
        moreover have "\<not> endpoint (t ! k) < ep"
          using count_less_nth [OF srt len, of k ep] k mlen by simp
        ultimately show "endpoint (t ! k) = ep" by simp
      qed
      have wb: "walk_back t ep (int (unat mid)) = Inr (if ?c = 0 then -1 else int ?c - 2)"
        by (rule walk_back_run [OF srt len _ _ c_le run]) (use mlen in linarith)+
      have idx: "(if (if ?c = 0 then -1 else int ?c - 2) < 0 then 0
                  else of_int ((if ?c = 0 then -1 else int ?c - 2) + 1)) = (of_nat (?c - 1) :: u32)"
      proof (cases "?c \<le> 1")
        case True
        then show ?thesis by auto
      next
        case False
        then have "int ?c - 2 + 1 = int (?c - 1)" by simp
        with False show ?thesis by simp
      qed
      have "\<not> ep < endpoint (t ! unat mid)" "\<not> endpoint (t ! unat mid) < ep" using eq by simp_all
      with found rdm True wb idx show ?thesis
        by (subst search_loop.simps) (simp add: Let_def flip: mid_def)
    qed
  qed
qed

subsection \<open>Soundness and termination of the scan\<close>

lemma scan_run_sound:
  assumes ret: "scan_run t L H len tg r idx = Some res"
  shows "\<forall>s. res = Inr (Some s) \<longrightarrow> memcmp_eq len (H s) tg"
proof (rule scan_run.raw_induct [where P = "\<lambda>t L H len tg r idx res.
    \<forall>s. res = Inr (Some s) \<longrightarrow> memcmp_eq len (H s) tg", OF _ ret])
  fix scan :: "chain list \<Rightarrow> u32 \<Rightarrow> hash_fn \<Rightarrow> u32 \<Rightarrow> digest \<Rightarrow> u32 \<Rightarrow> u32 \<Rightarrow> (error + u32 option) option"
  fix t L H len tg r idx res
  assume IH: "\<And>t L H len tg r idx res. scan t L H len tg r idx = Some res \<Longrightarrow>
      \<forall>s. res = Inr (Some s) \<longrightarrow> memcmp_eq len (H s) tg"
    and eq: "(case rd t (unat idx) of
        Inl e \<Rightarrow> Some (Inl e)
      | Inr ch \<Rightarrow>
          (case regenerateChain (startpoint ch) L H len tg of
             Some seed \<Rightarrow> Some (Inr (Some seed))
           | None \<Rightarrow>
               (case rd t (unat (idx + 1)) of
                  Inl e \<Rightarrow> Some (Inl e)
                | Inr ch' \<Rightarrow>
                    if endpoint ch' = r
                    then scan t L H len tg r (idx + 1)
                    else Some (Inr None)))) = Some res"
  show "\<forall>s. res = Inr (Some s) \<longrightarrow> memcmp_eq len (H s) tg"
    using eq IH [of t L H len tg r "idx + 1" res]
    by (auto simp: regenerateChain_def split: sum.splits option.splits if_splits dest: regen_loop_sound)
qed

lemma search_from_sound:
  "search_from t n L H len tg j = Some (Inr (Some s)) \<Longrightarrow> memcmp_eq len (H s) tg"
proof (induction j)
  case 0
  then show ?case by simp
next
  case (Suc j)
  then show ?case
    using scan_run_sound [of t L H len tg "candidate H L len tg j"]
    by (auto simp: Let_def split: option.splits sum.splits)
qed

lemma search_loop_terminates:
  "unat b \<le> unat en \<Longrightarrow> unat en < 2 ^ 31 \<Longrightarrow> search_loop t ep b en \<noteq> None"
proof (induction "unat en - unat b" arbitrary: b en rule: less_induct)
  case less
  show ?case
  proof (cases "b < en")
    case False
    then show ?thesis by (subst search_loop.simps) simp
  next
    case True
    define mid where "mid = (b + en) div 2"
    have bn: "unat b < unat en" using True by (simp add: word_less_nat_alt)
    have um: "unat mid = (unat b + unat en) div 2"
      unfolding mid_def using less.prems(2) bn by (intro unat_mid) simp
    have um1: "unat (mid + 1) = unat mid + 1"
      using um bn less.prems(2) by (simp add: unat_add_lem [THEN iffD1])
    have "search_loop t ep b mid \<noteq> None"
      using less.hyps [of mid b] um bn less.prems by simp
    moreover have "search_loop t ep (mid + 1) en \<noteq> None"
      using less.hyps [of en "mid + 1"] um um1 bn less.prems by simp
    ultimately show ?thesis
      using True by (subst search_loop.simps)
        (auto simp: Let_def split: sum.splits simp flip: mid_def)
  qed
qed

lemma scan_run_terminates:
  "length t < 2 ^ 32 \<Longrightarrow> scan_run t L H len tg r idx \<noteq> None"
proof (induction "length t - unat idx" arbitrary: idx rule: less_induct)
  case less
  show ?case
  proof (cases "unat idx + 1 < length t")
    case True
    then have "unat (idx + 1) = unat idx + 1"
      using less.prems by (simp add: unat_add_lem [THEN iffD1])
    then have "scan_run t L H len tg r (idx + 1) \<noteq> None"
      using less.hyps [of "idx + 1"] True less.prems by simp
    then show ?thesis
      by (subst scan_run.simps) (auto split: sum.splits option.splits)
  next
    case False
    then have "length t \<le> unat (idx + 1) \<or> length t \<le> unat idx"
      using unat_add_lem [of idx 1] less.prems unat_u32_less [of idx] by (cases "unat idx + 1 < 2 ^ 32") auto
    then show ?thesis
      by (subst scan_run.simps) (auto split: sum.splits option.splits)
  qed
qed

lemma search_from_terminates:
  "0 < unat n \<Longrightarrow> unat n \<le> 2 ^ 31 \<Longrightarrow> length t < 2 ^ 32 \<Longrightarrow>
   search_from t n L H len tg j \<noteq> None"
proof (induction j)
  case 0
  then show ?case by simp
next
  case (Suc j)
  have "n \<noteq> 0" using Suc.prems(1) by auto
  then have "unat (n - 1) < 2 ^ 31" using Suc.prems(2) by (simp add: unat_minus_one)
  then have st: "searchTable t n r = None \<longleftrightarrow> False" for r
    unfolding searchTable_def using search_loop_terminates [of 0 "n - 1"] by simp
  have sc: "scan_run t L H len tg r idx = None \<longleftrightarrow> False" for r idx
    using scan_run_terminates [OF Suc.prems(3)] by simp
  show ?case
    using Suc by (auto simp add: Let_def st sc split: option.splits sum.splits)
qed

lemma searchHashInMemory_found:
  assumes "searchHashInMemory t n L H len tg = Some (Inr (Some s))"
  shows "memcmp_eq len (H s) tg"
proof -
  from assms have "search_from t n L H len tg (nat (sint (L - 1)) + 1) = Some (Inr (Some s))"
    by (simp add: searchHashInMemory_def Let_def del: search_from.simps split: if_splits)
  then show ?thesis by (rule search_from_sound)
qed

lemma searchHashInMemory_returns:
  assumes "0 < unat n" "unat n \<le> 2 ^ 31" "length t < 2 ^ 32"
  shows "\<exists>r. searchHashInMemory t n L H len tg = Some r"
  using search_from_terminates [OF assms] 
  by (simp add: searchHashInMemory_def Let_def del: search_from.simps)

lemma searchTable_result:
  assumes "sorted (take (unat n) (map endpoint t))" "unat n \<le> length t"
    "0 < unat n" "unat n \<le> 2 ^ 31"
  shows "searchTable t n ep =
    Some (Inr (if ep \<in> set (take (unat n - 1) (map endpoint t))
               then Some (of_nat (count_less (unat n) t ep - 1)) else None))"
proof -
  have "n \<noteq> 0" using assms(3) by auto
  then have n1: "unat (n - 1) = unat n - 1" by (rule unat_minus_one)
  have "(\<exists>k. unat (0::u32) \<le> k \<and> k < unat (n - 1) \<and> endpoint (t ! k) = ep) \<longleftrightarrow>
        ep \<in> set (take (unat n - 1) (map endpoint t))"
    using assms(2) by (auto simp: n1 in_set_conv_nth)
  moreover have "search_loop t ep 0 (n - 1) =
    Some (Inr (if \<exists>k. unat (0::u32) \<le> k \<and> k < unat (n - 1) \<and> endpoint (t ! k) = ep
               then Some (of_nat (count_less (unat n) t ep - 1)) else None))"
    by (rule search_loop_sorted [OF assms(1,2)]) (use assms(3,4) n1 in auto)
  ultimately show ?thesis by (simp add: searchTable_def)
qed

text \<open>Completeness: a target on a chain of the table is met by the walk.\<close>

lemma target_walk_chain:
  "target_walk H len i m (H (chain_walk H len 0 i x)) = H (chain_walk H len 0 (i + m) x)"
proof (induction m arbitrary: i)
  case 0
  then show ?case by simp
next
  case (Suc m)
  have "reduce (H (chain_walk H len 0 i x)) len (of_nat i) = chain_walk H len 0 (Suc i) x"
    using chain_walk_Suc_right [of H len 0 i x] by simp
  then show ?case using Suc.IH [of "Suc i"] by simp
qed

lemma candidate_chain:
  assumes "j < unat chainLen"
  shows "candidate H chainLen len (H (chain_walk H len 0 j x)) j = chain_walk H len 0 (unat chainLen) x"
proof -
  let ?L = "unat chainLen"
  have "target_walk H len j (?L - 1 - j) (H (chain_walk H len 0 j x)) = H (chain_walk H len 0 (?L - 1) x)"
    using target_walk_chain [of H len j "?L - 1 - j" x] assms by simp
  moreover have "chain_walk H len 0 ?L x = reduce (H (chain_walk H len 0 (?L - 1) x)) len (of_nat (?L - 1))"
    using chain_walk_Suc_right [of H len 0 "?L - 1" x] assms by simp
  ultimately show ?thesis by (simp add: candidate_def Let_def)
qed

lemma scan_run_reaches:
  assumes "i \<le> ci" "ci < length t" "length t < 2 ^ 32" "\<forall>k. i < k \<and> k \<le> ci \<longrightarrow> endpoint (t ! k) = r"
    "regenerateChain (startpoint (t ! ci)) L H len tg \<noteq> None"
  shows "\<exists>s. scan_run t L H len tg r (of_nat i) = Some (Inr (Some s))"
  using assms
proof (induction "ci - i" arbitrary: i)
  case 0
  then have i: "i = ci" by simp
  have u: "unat (of_nat i :: u32) = i" using 0 by (simp add: unat_of_nat)
  obtain s where "regenerateChain (startpoint (t ! ci)) L H len tg = Some s" using 0 by blast
  then show ?case using i u 0 by (subst scan_run.simps) (simp add: rd_def)
next
  case (Suc d)
  have e: "(of_nat i + 1 :: u32) = of_nat (Suc i)" by simp
  have "unat (of_nat (Suc i) :: u32) = Suc i"
    using Suc.prems(2,3) Suc.hyps(2) by (subst unat_of_nat) simp
  then have u: "unat (of_nat i :: u32) = i" "unat (of_nat i + 1 :: u32) = i + 1"
    using Suc.prems(2,3) Suc.hyps(2) unfolding e by (simp_all add: unat_of_nat)
  have next_ep: "endpoint (t ! (i + 1)) = r" using Suc.prems(4) Suc.hyps(2) by simp
  have "\<exists>s. scan_run t L H len tg r (of_nat (Suc i)) = Some (Inr (Some s))"
    using Suc.hyps(1) [of "Suc i"] Suc.hyps(2) Suc.prems by simp
  then have ih: "\<exists>s. scan_run t L H len tg r (of_nat i + 1) = Some (Inr (Some s))"
    by (simp only: e)
  have lt: "Suc i < length t" using Suc.hyps(2) Suc.prems(2) by simp
  show ?case
  proof (cases "regenerateChain (startpoint (t ! i)) L H len tg")
    case None
    then show ?thesis using ih u next_ep lt
      by (subst scan_run.simps) (simp add: rd_def)
  next
    case (Some s)
    then show ?thesis using u Suc.prems(2) Suc.hyps(2) by (subst scan_run.simps) (simp add: rd_def)
  qed
qed

lemma search_from_hit:
  assumes st: "searchTable t n (candidate H L len tg j) = Some (Inr (Some idx))"
    and sc: "scan_run t L H len tg (candidate H L len tg j) idx = Some (Inr (Some s))"
  shows "j < m \<Longrightarrow> search_from t n L H len tg m \<noteq> Some (Inr None)"
proof (induction m)
  case 0
  then show ?case by simp
next
  case (Suc m)
  show ?case
  proof (cases "m = j")
    case True
    then show ?thesis using st sc by (simp add: Let_def)
  next
    case False
    then have "search_from t n L H len tg m \<noteq> Some (Inr None)" using Suc by simp
    then show ?thesis by (auto simp: Let_def split: option.splits sum.splits)
  qed
qed

subsection \<open>Properties of searchTable\<close>

text \<open>C3: On a table whose first \<open>chainNum\<close> entries are sorted by endpoint
  (\<open>1 \<le> chainNum \<le> 2^31\<close>, all mapped), \<open>searchTable\<close> returns and finds \<open>r\<close>
  exactly when \<open>r\<close> is the endpoint of one of the first \<open>chainNum - 1\<close> entries (the
  last entry is never inspected), and then stores the index of the first entry with
  endpoint \<open>r\<close> minus one (or 0), not the index of the first entry itself.\<close>

theorem searchTable_sorted:
  assumes "sorted (take (unat n) (map endpoint t))" "unat n \<le> length t"
    "0 < unat n" "unat n \<le> 2 ^ 31"
  shows "searchTable t n ep =
    Some (Inr (if ep \<in> set (take (unat n - 1) (map endpoint t))
               then Some (of_nat (count_less (unat n) t ep - 1)) else None))"
  using assms by (rule searchTable_result)

theorem searchTable_sorted_witness:
  "searchTable [\<lparr>startpoint = 7, endpoint = 0\<rparr>, \<lparr>startpoint = 7, endpoint = 1\<rparr>,
                \<lparr>startpoint = 8, endpoint = 1\<rparr>, \<lparr>startpoint = 9, endpoint = 2\<rparr>] 4 1
     = Some (Inr (Some 0))
   \<and> searchTable [\<lparr>startpoint = 7, endpoint = 1\<rparr>, \<lparr>startpoint = 8, endpoint = 2\<rparr>] 2 2
     = Some (Inr None)"
proof -
  let ?t1 = "[\<lparr>startpoint = 7, endpoint = 0\<rparr>, \<lparr>startpoint = 7, endpoint = 1\<rparr>,
              \<lparr>startpoint = 8, endpoint = 1\<rparr>, \<lparr>startpoint = 9, endpoint = (2::u32)\<rparr>]"
  let ?t2 = "[\<lparr>startpoint = 7, endpoint = 1\<rparr>, \<lparr>startpoint = 8, endpoint = (2::u32)\<rparr>]"
  have "searchTable ?t1 4 1 = Some (Inr (Some 0))"
    using searchTable_sorted [of 4 ?t1 1] by (simp add: count_less_def)
  moreover have "searchTable ?t2 2 2 = Some (Inr None)"
    using searchTable_sorted [of 2 ?t2 2] by simp
  ultimately show ?thesis by simp
qed

subsection \<open>Properties of searchHashInMemory\<close>

text \<open>C1: Every seed the lookup returns is genuine: if \<open>searchHashInMemory\<close> returns a
  seed, the hash of that seed equals the target digest on its \<open>hashLen\<close> bytes, for
  every table, sorted or not, whatever the chain length, and whatever collisions the
  reduction has (false positives are rejected by \<open>regenerateChain\<close>).\<close>

theorem searchHashInMemory_sound:
  assumes "searchHashInMemory t n L H len tg = Some (Inr (Some s))"
  shows "memcmp_eq len (H s) tg"
  using assms by (rule searchHashInMemory_found)

theorem searchHashInMemory_sound_witness:
  "searchHashInMemory [\<lparr>startpoint = 4, endpoint = 4\<rparr>, \<lparr>startpoint = 6, endpoint = 6\<rparr>] 2 1
     id_hash 4 (le_bytes32 4) = Some (Inr (Some 4))
   \<and> memcmp_eq 4 (id_hash 4) (le_bytes32 4)"
proof -
  have h: "searchHashInMemory [\<lparr>startpoint = 4, endpoint = 4\<rparr>, \<lparr>startpoint = 6, endpoint = 6\<rparr>] 2 1
     id_hash 4 (le_bytes32 4) = Some (Inr (Some 4))"
    by (simp add: searchHashInMemory_def candidate_def searchTable_def search_loop.simps
        walk_back.simps scan_run.simps regenerateChain_def id_hash_def reduce_le_bytes32)
  show ?thesis using h searchHashInMemory_sound [OF h] by simp
qed


text \<open>C2: Completeness of the lookup: if the target is the digest of the seed at
  position \<open>j < chainLen\<close> of a genuine chain that is one of the first
  \<open>chainNum - 1\<close> entries of a sorted table (\<open>1 \<le> chainNum, chainLen \<le> 2^31\<close>),
  \<open>searchHashInMemory\<close> returns and never reports the target as absent: it returns a
  seed (which hashes to the target, C1) or runs into a read past the mapping.\<close>

theorem searchHashInMemory_complete:
  assumes srt: "sorted (take (unat n) (map endpoint t))" and len: "unat n \<le> length t"
    and n: "0 < unat n" "unat n \<le> 2 ^ 31" and lt: "length t < 2 ^ 32"
    and L: "0 < unat chainLen" "unat chainLen \<le> 2 ^ 31"
    and ci: "ci < unat n - 1" and gen: "endpoint (t ! ci) = chain_walk H len 0 (unat chainLen) (startpoint (t ! ci))"
    and j: "j < unat chainLen" and tg: "tg = H (chain_walk H len 0 j (startpoint (t ! ci)))"
  shows "\<exists>r. searchHashInMemory t n chainLen H len tg = Some r \<and> r \<noteq> Inr None"
proof -
  let ?ep = "endpoint (t ! ci)" and ?m = "unat n"
  let ?cl = "count_less ?m t ?ep"
  have cand: "candidate H chainLen len tg j = ?ep"
    using candidate_chain [OF j, of H len "startpoint (t ! ci)"] gen tg by simp
  have ci_t: "ci < length (take (?m - 1) (map endpoint t))" using ci len by simp
  then have "take (?m - 1) (map endpoint t) ! ci \<in> set (take (?m - 1) (map endpoint t))" by (rule nth_mem)
  moreover have "take (?m - 1) (map endpoint t) ! ci = ?ep" using ci len by simp
  ultimately have "?ep \<in> set (take (?m - 1) (map endpoint t))" by simp
  then have st: "searchTable t n ?ep = Some (Inr (Some (of_nat (?cl - 1))))"
    using searchTable_result [OF srt len n] by simp
  have ci_m: "ci < ?m" using ci by simp
  have cl_le: "?cl \<le> ci" using count_less_nth [OF srt len ci_m, of ?ep] by simp
  have run: "\<forall>k. ?cl - 1 < k \<and> k \<le> ci \<longrightarrow> endpoint (t ! k) = ?ep"
  proof (intro allI impI)
    fix k assume k: "?cl - 1 < k \<and> k \<le> ci"
    then have "k < ?m" using ci by arith
    moreover have "\<not> k < ?cl" using k by arith
    ultimately have "\<not> endpoint (t ! k) < ?ep" using count_less_nth [OF srt len, of k ?ep] by simp
    moreover have "endpoint (t ! k) \<le> ?ep" using sorted_take_endpoint [OF srt _ ci_m len, of k] k by simp
    ultimately show "endpoint (t ! k) = ?ep" by simp
  qed
  have rg: "regenerateChain (startpoint (t ! ci)) chainLen H len tg \<noteq> None"
  proof
    assume "regenerateChain (startpoint (t ! ci)) chainLen H len tg = None"
    then have "\<not> memcmp_eq len (H (chain_walk H len 0 j (startpoint (t ! ci)))) tg"
      using j by (simp add: regenerateChain_def regen_loop_None_iff)
    then show False using tg by simp
  qed
  have cl1: "?cl - 1 \<le> ci" using cl_le by simp
  have ci_len: "ci < length t" using ci len by simp
  obtain s where sc: "scan_run t chainLen H len tg ?ep (of_nat (?cl - 1)) = Some (Inr (Some s))"
    using scan_run_reaches [OF cl1 ci_len lt run rg] by blast
  have "chainLen \<noteq> 0" using L(1) by auto
  then have u1: "unat (chainLen - 1) = unat chainLen - 1" by (rule unat_minus_one)
  then have sL: "sint (chainLen - 1) = int (unat chainLen - 1)" using L(2) sint_small [of "chainLen - 1"] by simp
  have L1: "nat (sint (chainLen - 1)) + 1 = unat chainLen" "\<not> sint (chainLen - 1) < 0"
    unfolding sL nat_int using L(1) by arith+
  have "search_from t n chainLen H len tg (unat chainLen) \<noteq> Some (Inr None)"
    using search_from_hit [of t n H chainLen len tg j "of_nat (?cl - 1)" s] st sc cand j by simp
  moreover have "search_from t n chainLen H len tg (unat chainLen) \<noteq> None"
    using search_from_terminates [OF n lt] .
  ultimately show ?thesis using L1 by (auto simp add: searchHashInMemory_def Let_def simp del: search_from.simps)
qed

theorem searchHashInMemory_complete_witness:
  "sorted (take (unat (2::u32)) (map endpoint [\<lparr>startpoint = 5, endpoint = 5\<rparr>, \<lparr>startpoint = 7, endpoint = (7::u32)\<rparr>]))
   \<and> unat (2::u32) \<le> length [\<lparr>startpoint = 5, endpoint = 5\<rparr>, \<lparr>startpoint = 7, endpoint = (7::u32)\<rparr>]
   \<and> 0 < unat (2::u32) \<and> unat (2::u32) \<le> 2 ^ 31
   \<and> length [\<lparr>startpoint = 5, endpoint = 5\<rparr>, \<lparr>startpoint = 7, endpoint = (7::u32)\<rparr>] < 2 ^ 32
   \<and> 0 < unat (1::u32) \<and> unat (1::u32) \<le> 2 ^ 31 \<and> (0::nat) < unat (2::u32) - 1
   \<and> endpoint ([\<lparr>startpoint = 5, endpoint = 5\<rparr>, \<lparr>startpoint = 7, endpoint = (7::u32)\<rparr>] ! 0)
       = chain_walk id_hash 4 0 (unat (1::u32)) (startpoint ([\<lparr>startpoint = 5, endpoint = 5\<rparr>, \<lparr>startpoint = 7, endpoint = (7::u32)\<rparr>] ! 0))
   \<and> (0::nat) < unat (1::u32)
   \<and> id_hash 5 = id_hash (chain_walk id_hash 4 0 0 (startpoint ([\<lparr>startpoint = 5, endpoint = 5\<rparr>, \<lparr>startpoint = 7, endpoint = (7::u32)\<rparr>] ! 0)))
   \<and> (\<exists>r. searchHashInMemory [\<lparr>startpoint = 5, endpoint = 5\<rparr>, \<lparr>startpoint = 7, endpoint = 7\<rparr>] 2 1 id_hash 4 (id_hash 5) = Some r
          \<and> r \<noteq> Inr None)"
  using searchHashInMemory_complete [of 2 "[\<lparr>startpoint = 5, endpoint = 5\<rparr>, \<lparr>startpoint = 7, endpoint = (7::u32)\<rparr>]" 1 0 id_hash 4 0 "id_hash 5"]
  by (simp add: id_hash_def reduce_le_bytes32)

text \<open>C24: The lookup returns (the two loops that have no termination argument in
  general, the binary search and the do-while scan, stop) on every table of
  \<open>1 \<le> chainNum \<le> 2^31\<close> entries whose mapping holds fewer than \<open>2^32\<close>
  records, whatever the chain length, hash function and target.\<close>

theorem searchHashInMemory_terminates:
  assumes "0 < unat n" "unat n \<le> 2 ^ 31" "length t < 2 ^ 32"
  shows "\<exists>r. searchHashInMemory t n L H len tg = Some r"
  using assms by (rule searchHashInMemory_returns)

theorem searchHashInMemory_terminates_witness:
  "\<exists>r. searchHashInMemory [\<lparr>startpoint = 4, endpoint = 4\<rparr>, \<lparr>startpoint = 6, endpoint = 6\<rparr>] 2 1
     id_hash 4 (le_bytes32 4) = Some r"
  by (rule searchHashInMemory_terminates) simp_all

end
