(* ===== verification/MT.thy ===== *)
theory MT
  imports Prelude
begin

text \<open>
  The Mersenne Twister of PHP as stripped into \<open>src/unnamed/part_001\<close> (lines 1--137):
  the generator state \<open>MTState\<close> as a record (the pointer \<open>next\<close> as the index \<open>next_pos\<close> into
  \<open>state\<close>), \<open>mtInitialize\<close>, \<open>mtReload\<close> with its three pointer loops as folds
  over index ranges, \<open>mt_srand\<close>, \<open>mt_rand\<close>, \<open>php_mt_rand\<close> and
  \<open>php_mt_rand_range\<close> (lines 131--137) with the \<open>double\<close> arithmetic of
  \<open>RAND_RANGE\<close> (lines 22--25) written out on integers.  All other arithmetic is
  on \<open>uint32_t\<close>, so \<open>32 word\<close>.  The read \<open>*mtInfo->next++\<close> goes through
  \<open>rd\<close>: a read past the state vector is the error \<open>OutOfBounds\<close>.
\<close>

definition mtN :: nat where "mtN = 624"
definition mtM :: nat where "mtM = 397"

record MTState =
  state :: "u32 list"
  left :: u32
  next_pos :: nat

text \<open>\<open>unsigned short int PHPMtRand = 1\<close>: the PHP variant of the twist is selected.\<close>

definition PHPMtRand :: bool where "PHPMtRand = True"

definition mixBits :: "u32 \<Rightarrow> u32 \<Rightarrow> u32" where
  "mixBits u v = (u AND 0x80000000) OR (v AND 0x7FFFFFFF)"

definition php_twist :: "u32 \<Rightarrow> u32 \<Rightarrow> u32 \<Rightarrow> u32" where
  "php_twist m u v = m XOR drop_bit 1 (mixBits u v) XOR ((- (u AND 1)) AND 0x9908b0df)"

definition mt_twist :: "u32 \<Rightarrow> u32 \<Rightarrow> u32 \<Rightarrow> u32" where
  "mt_twist m u v = m XOR drop_bit 1 (mixBits u v) XOR ((- (v AND 1)) AND 0x9908b0df)"

text \<open>The initialisation loop \<open>*s++ = 1812433253U * (*r ^ (*r >> 30)) + i\<close> for
  \<open>i = 1 .. n - 1\<close>, after \<open>*s++ = seed\<close>; \<open>mtInitialize\<close> runs it to \<open>N\<close>,
  the \<open>wikihash\<close> copy to \<open>N - 200\<close>.\<close>

definition mt_init_upto :: "nat \<Rightarrow> u32 \<Rightarrow> u32 list \<Rightarrow> u32 list" where
  "mt_init_upto n seed st =
     fold (\<lambda>i st. st[i := 1812433253 * (st ! (i - 1) XOR drop_bit 30 (st ! (i - 1))) + of_nat i])
       [1..<n] (st[0 := seed])"

definition mtInitialize :: "u32 \<Rightarrow> MTState \<Rightarrow> MTState" where
  "mtInitialize seed s = s\<lparr>state := mt_init_upto mtN seed (state s)\<rparr>"

text \<open>One pointer loop of \<open>mtReload\<close>: \<open>*p = twist(p[d], p[0], p[1])\<close> for the
  positions \<open>ps\<close>, the first operand at index \<open>f p\<close>.\<close>

definition reload_loop ::
  "(u32 \<Rightarrow> u32 \<Rightarrow> u32 \<Rightarrow> u32) \<Rightarrow> (nat \<Rightarrow> nat) \<Rightarrow> nat list \<Rightarrow> u32 list \<Rightarrow> u32 list" where
  "reload_loop tw f ps st = fold (\<lambda>i st. st[i := tw (st ! f i) (st ! i) (st ! (i + 1))]) ps st"

definition mtReload :: "MTState \<Rightarrow> MTState" where
  "mtReload s =
     (let tw = (if PHPMtRand then php_twist else mt_twist);
          st1 = reload_loop tw (\<lambda>i. i + mtM) [0..<mtN - mtM] (state s);
          st2 = reload_loop tw (\<lambda>i. i + mtM - mtN) [mtN - mtM..<mtN - 1] st1;
          st3 = st2[mtN - 1 := tw (st2 ! (mtM - 1)) (st2 ! (mtN - 1)) (st2 ! 0)]
      in s\<lparr>state := st3, left := of_nat mtN, next_pos := 0\<rparr>)"

text \<open>\<open>mt_srand\<close> leaves \<open>next\<close> as it was: the first \<open>mt_rand\<close> reloads.\<close>

definition mt_srand :: "u32 \<Rightarrow> MTState \<Rightarrow> MTState" where
  "mt_srand seed s = (mtInitialize seed s)\<lparr>left := 0\<rparr>"

definition mt_temper :: "u32 \<Rightarrow> u32" where
  "mt_temper s1 =
     (let s1 = s1 XOR drop_bit 11 s1;
          s1 = s1 XOR (push_bit 7 s1 AND 0x9d2c5680);
          s1 = s1 XOR (push_bit 15 s1 AND 0xefc60000)
      in s1 XOR drop_bit 18 s1)"

definition mt_rand :: "MTState \<Rightarrow> error + u32 \<times> MTState" where
  "mt_rand s =
     (let s = (if left s = 0 then mtReload s else s)
      in case rd (state s) (next_pos s) of
           Inl e \<Rightarrow> Inl e
         | Inr s1 \<Rightarrow> Inr (mt_temper s1, s\<lparr>left := left s - 1, next_pos := next_pos s + 1\<rparr>))"

definition php_mt_rand :: "MTState \<Rightarrow> error + u32 \<times> MTState" where
  "php_mt_rand s = (case mt_rand s of Inl e \<Rightarrow> Inl e | Inr (r, s') \<Rightarrow> Inr (drop_bit 1 r, s'))"

text \<open>\<open>n\<close> successive calls of \<open>php_mt_rand\<close>, as the loop of the test \<open>main\<close>.\<close>

fun php_mt_rands :: "nat \<Rightarrow> MTState \<Rightarrow> error + u32 list \<times> MTState" where
  "php_mt_rands 0 s = Inr ([], s)"
| "php_mt_rands (Suc n) s =
     (case php_mt_rand s of
        Inl e \<Rightarrow> Inl e
      | Inr (r, s') \<Rightarrow> (case php_mt_rands n s' of Inl e \<Rightarrow> Inl e | Inr (rs, s'') \<Rightarrow> Inr (r # rs, s'')))"

text \<open>\<open>RAND_RANGE(num, min, max, PHP_MT_RAND_MAX)\<close> computes in \<open>double\<close>.  Every
  step is exact but one: \<open>(double) max - min + 1.0\<close> is an integer below \<open>2^33\<close>,
  \<open>num / (PHP_MT_RAND_MAX + 1.0)\<close> divides by \<open>2^31\<close>; their product is the integer
  \<open>(max - min + 1) * num\<close> scaled by \<open>2^-31\<close>, rounded to the 53 bits of a
  \<open>double\<close> (to nearest, ties to even; scaling by a power of two commutes with the
  rounding).  \<open>(long)\<close> truncates toward zero and the sum is stored in a
  \<open>uint32_t\<close>.\<close>

definition PHP_MT_RAND_MAX :: int where "PHP_MT_RAND_MAX = 0x7FFFFFFF"

fun bitlen :: "nat \<Rightarrow> nat" where
  "bitlen m = (if m = 0 then 0 else Suc (bitlen (m div 2)))"

declare bitlen.simps [simp del]

text \<open>A natural number rounded to 53 significant bits, to nearest, ties to even.\<close>

definition round53 :: "nat \<Rightarrow> nat" where
  "round53 m =
     (let e = bitlen m - 53; q = m div 2 ^ e; r = m mod 2 ^ e;
          q' = (if 2 ^ e < 2 * r \<or> (2 * r = 2 ^ e \<and> odd q) then q + 1 else q)
      in q' * 2 ^ e)"

definition round_double :: "int \<Rightarrow> int" where
  "round_double x = sgn x * int (round53 (nat \<bar>x\<bar>))"

definition rand_range :: "u32 \<Rightarrow> u32 \<Rightarrow> u32 \<Rightarrow> u32" where
  "rand_range n mn mx =
     (let a = int (unat mx) - int (unat mn) + 1;
          p = round_double (a * int (unat n));
          t = sgn p * (\<bar>p\<bar> div (PHP_MT_RAND_MAX + 1))
      in word_of_int (int (unat mn) + t))"

definition php_mt_rand_range :: "MTState \<Rightarrow> u32 \<Rightarrow> u32 \<Rightarrow> error + u32 \<times> MTState" where
  "php_mt_rand_range s mn mx = (case php_mt_rand s of Inl e \<Rightarrow> Inl e | Inr (n, s') \<Rightarrow> Inr (rand_range n mn mx, s'))"

text \<open>The initialisation sequence as a recurrence, to state what the loop computes.\<close>

primrec mt_seq :: "u32 \<Rightarrow> nat \<Rightarrow> u32" where
  "mt_seq seed 0 = seed"
| "mt_seq seed (Suc i) =
     1812433253 * (mt_seq seed i XOR drop_bit 30 (mt_seq seed i)) + of_nat (Suc i)"

definition mt_wf :: "MTState \<Rightarrow> bool" where
  "mt_wf s \<longleftrightarrow> length (state s) = mtN \<and> (left s = 0 \<or> unat (left s) + next_pos s = mtN)"

subsection \<open>Lemmas\<close>

lemma length_mt_init_upto [simp]: "length (mt_init_upto n seed st) = length st"
  unfolding mt_init_upto_def by (simp add: length_fold_update)

lemma mt_init_upto_nth:
  "k < n \<Longrightarrow> n \<le> length st \<Longrightarrow> mt_init_upto n seed st ! k = mt_seq seed k"
proof (induction n arbitrary: k)
  case 0
  then show ?case by simp
next
  case (Suc n)
  show ?case
  proof (cases n)
    case 0
    with Suc.prems show ?thesis by (simp add: mt_init_upto_def Suc_le_eq)
  next
    case (Suc m)
    have split: "mt_init_upto (Suc n) seed st =
      (mt_init_upto n seed st)[n := 1812433253 * (mt_init_upto n seed st ! (n - 1)
         XOR drop_bit 30 (mt_init_upto n seed st ! (n - 1))) + of_nat n]"
      using Suc by (simp add: mt_init_upto_def)
    have prev: "mt_init_upto n seed st ! (n - 1) = mt_seq seed (n - 1)"
      using Suc.IH [of "n - 1"] Suc.prems Suc by simp
    show ?thesis
    proof (cases "k = n")
      case True
      with Suc.prems Suc prev split show ?thesis by simp
    next
      case False
      with Suc.prems split Suc.IH [of k] show ?thesis by simp
    qed
  qed
qed

lemma length_reload_loop [simp]: "length (reload_loop tw f ps st) = length st"
  unfolding reload_loop_def by (rule length_fold_update)

lemma reload_loop_append:
  "reload_loop tw f (xs @ ys) st = reload_loop tw f ys (reload_loop tw f xs st)"
  by (simp add: reload_loop_def)

lemma reload_loop_outside:
  "k \<notin> set ps \<Longrightarrow> reload_loop tw f ps st ! k = st ! k"
proof (induction ps arbitrary: st)
  case Nil
  then show ?case by (simp add: reload_loop_def)
next
  case (Cons i ps)
  then show ?case by (simp add: reload_loop_def)
qed

text \<open>The first loop of \<open>mtReload\<close> reads only words it has not yet overwritten.\<close>

lemma reload_loop_first:
  "k < j \<Longrightarrow> j + d \<le> length st \<Longrightarrow> 0 < d \<Longrightarrow>
   reload_loop tw (\<lambda>i. i + d) [0..<j] st ! k = tw (st ! (k + d)) (st ! k) (st ! (k + 1))"
proof (induction j arbitrary: k)
  case 0
  then show ?case by simp
next
  case (Suc j)
  let ?R = "reload_loop tw (\<lambda>i. i + d) [0..<j] st"
  have R: "reload_loop tw (\<lambda>i. i + d) [0..<Suc j] st =
     ?R[j := tw (?R ! (j + d)) (?R ! j) (?R ! (j + 1))]"
    by (simp add: reload_loop_append) (simp add: reload_loop_def)
  have out: "?R ! m = st ! m" if "j \<le> m" for m
    using that by (intro reload_loop_outside) simp
  show ?case
  proof (cases "k = j")
    case True
    with Suc.prems R out show ?thesis by simp
  next
    case False
    with Suc.prems R Suc.IH [of k] show ?thesis by simp
  qed
qed

lemma mtN_mtM: "mtN = 624" "mtM = 397"
  by (simp_all add: mtN_def mtM_def)

lemma length_mtReload [simp]: "length (state (mtReload s)) = length (state s)"
  by (simp add: mtReload_def Let_def)

lemma mtReload_fields [simp]: "left (mtReload s) = 624" "next_pos (mtReload s) = 0"
  by (simp_all add: mtReload_def Let_def mtN_mtM)

text \<open>The words \<open>0 .. N - M - 1\<close> of the reloaded state depend only on the words of the
  state before, read at \<open>k\<close>, \<open>k + 1\<close> and \<open>k + M\<close>.\<close>

lemma mtReload_nth_low:
  assumes "length (state s) = mtN" "k < mtN - mtM"
  shows "state (mtReload s) ! k = php_twist (state s ! (k + mtM)) (state s ! k) (state s ! (k + 1))"
proof -
  let ?st1 = "reload_loop php_twist (\<lambda>i. i + mtM) [0..<mtN - mtM] (state s)"
  let ?st2 = "reload_loop php_twist (\<lambda>i. i + mtM - mtN) [mtN - mtM..<mtN - 1] ?st1"
  have "?st1 ! k = php_twist (state s ! (k + mtM)) (state s ! k) (state s ! (k + 1))"
    using assms by (intro reload_loop_first) (simp_all add: mtN_mtM)
  moreover have "?st2 ! k = ?st1 ! k"
    using assms(2) by (intro reload_loop_outside) simp
  moreover have "k \<noteq> mtN - 1" using assms(2) by (simp add: mtN_mtM)
  ultimately show ?thesis by (simp add: mtReload_def PHPMtRand_def Let_def)
qed

lemma mt_rand_running:
  assumes "left s \<noteq> 0" "next_pos s < length (state s)"
  shows "mt_rand s = Inr (mt_temper (state s ! next_pos s), s\<lparr>left := left s - 1, next_pos := next_pos s + 1\<rparr>)"
  using assms by (simp add: mt_rand_def)

lemma mt_rand_reload:
  assumes "left s = 0" "length (state s) = mtN"
  shows "mt_rand s = Inr (mt_temper (state (mtReload s) ! 0), (mtReload s)\<lparr>left := 623, next_pos := 1\<rparr>)"
  using assms by (simp add: mt_rand_def mtN_mtM Let_def)

text \<open>\<open>n\<close> calls on a running generator read the next \<open>n\<close> words.\<close>

lemma php_mt_rands_running:
  "n \<le> unat (left s) \<Longrightarrow> unat (left s) + next_pos s = length (state s) \<Longrightarrow>
   php_mt_rands n s = Inr (map (\<lambda>k. drop_bit 1 (mt_temper (state s ! (next_pos s + k)))) [0..<n],
     s\<lparr>left := left s - of_nat n, next_pos := next_pos s + n\<rparr>)"
proof (induction n arbitrary: s)
  case 0
  then show ?case by simp
next
  case (Suc n)
  have l: "left s \<noteq> 0" using Suc.prems(1) by auto
  have r: "mt_rand s = Inr (mt_temper (state s ! next_pos s), s\<lparr>left := left s - 1, next_pos := next_pos s + 1\<rparr>)"
    using Suc.prems by (intro mt_rand_running l) simp
  have ul: "unat (left s - 1) = unat (left s) - 1"
    using l by (simp add: unat_minus_one)
  have ih: "php_mt_rands n (s\<lparr>left := left s - 1, next_pos := next_pos s + 1\<rparr>) =
     Inr (map (\<lambda>k. drop_bit 1 (mt_temper (state s ! (next_pos s + 1 + k)))) [0..<n],
       s\<lparr>left := left s - 1 - of_nat n, next_pos := next_pos s + 1 + n\<rparr>)"
    using Suc.IH [of "s\<lparr>left := left s - 1, next_pos := next_pos s + 1\<rparr>"] Suc.prems ul by simp
  have "map (\<lambda>k. drop_bit 1 (mt_temper (state s ! (next_pos s + k)))) [0..<Suc n] =
    drop_bit 1 (mt_temper (state s ! next_pos s)) #
      map (\<lambda>k. drop_bit 1 (mt_temper (state s ! (next_pos s + 1 + k)))) [0..<n]"
    by (simp add: map_upt_Suc del: upt_Suc)
  then show ?case using r ih by (simp add: php_mt_rand_def algebra_simps)
qed

text \<open>After \<open>mt_srand\<close> the first call reloads and the calls read the reloaded
  words from the start.\<close>

lemma php_mt_rands_after_reload:
  assumes "left s = 0" "length (state s) = mtN" "n \<le> 623"
  shows "\<exists>s'. php_mt_rands (Suc n) s =
    Inr (map (\<lambda>k. drop_bit 1 (mt_temper (state (mtReload s) ! k))) [0..<Suc n], s')"
proof -
  let ?s1 = "(mtReload s)\<lparr>left := 623, next_pos := 1\<rparr>"
  have r: "php_mt_rand s = Inr (drop_bit 1 (mt_temper (state (mtReload s) ! 0)), ?s1)"
    using assms by (simp add: php_mt_rand_def mt_rand_reload)
  have "php_mt_rands n ?s1 = Inr (map (\<lambda>k. drop_bit 1 (mt_temper (state ?s1 ! (next_pos ?s1 + k)))) [0..<n],
     ?s1\<lparr>left := left ?s1 - of_nat n, next_pos := next_pos ?s1 + n\<rparr>)"
    using assms by (intro php_mt_rands_running) (simp_all add: mtN_mtM)
  moreover have "map (\<lambda>k. drop_bit 1 (mt_temper (state (mtReload s) ! k))) [0..<Suc n] =
    drop_bit 1 (mt_temper (state (mtReload s) ! 0)) #
      map (\<lambda>k. drop_bit 1 (mt_temper (state (mtReload s) ! (1 + k)))) [0..<n]"
    by (simp add: map_upt_Suc del: upt_Suc)
  ultimately show ?thesis using r by simp
qed

text \<open>The outputs \<open>0 .. N - M - 1\<close> after \<open>mt_srand(seed)\<close>, in closed form.\<close>

lemma mt_srand_outputs:
  assumes "length (state s) = mtN" "k < n" "n \<le> mtN - mtM"
  shows "\<exists>os s'. php_mt_rands n (mt_srand seed s) = Inr (os, s') \<and>
    os ! k = drop_bit 1 (mt_temper (php_twist (mt_seq seed (k + mtM)) (mt_seq seed k) (mt_seq seed (k + 1))))"
proof -
  obtain m where n: "n = Suc m" using assms(2) by (cases n) auto
  let ?s0 = "mt_srand seed s"
  have s0: "left ?s0 = 0" "length (state ?s0) = mtN"
    using assms(1) by (simp_all add: mt_srand_def mtInitialize_def)
  obtain s' where run: "php_mt_rands n ?s0 =
    Inr (map (\<lambda>k. drop_bit 1 (mt_temper (state (mtReload ?s0) ! k))) [0..<n], s')"
    using php_mt_rands_after_reload [OF s0, of m] assms(3) n by (auto simp: mtN_mtM)
  have "state (mtReload ?s0) ! k =
    php_twist (state ?s0 ! (k + mtM)) (state ?s0 ! k) (state ?s0 ! (k + 1))"
    using s0 assms by (intro mtReload_nth_low) simp_all
  moreover have "state ?s0 ! i = mt_seq seed i" if "i < mtN" for i
    using that assms(1) by (simp add: mt_srand_def mtInitialize_def mt_init_upto_nth)
  ultimately have "state (mtReload ?s0) ! k =
    php_twist (mt_seq seed (k + mtM)) (mt_seq seed k) (mt_seq seed (k + 1))"
    using assms by (simp add: mtN_mtM)
  then show ?thesis using run assms(2) by auto
qed

text \<open>Rounding to a \<open>double\<close> and the range reduction.\<close>

lemma bitlen_bounds: "0 < m \<Longrightarrow> 2 ^ (bitlen m - 1) \<le> m \<and> m < 2 ^ bitlen m"
proof (induction m rule: bitlen.induct)
  case (1 m)
  show ?case
  proof (cases "m < 2")
    case True
    with "1.prems" have "m = 1" by simp
    then show ?thesis by (simp add: bitlen.simps)
  next
    case False
    then have h0: "0 < m div 2" by simp
    with "1.IH" "1.prems" have ih: "2 ^ (bitlen (m div 2) - 1) \<le> m div 2" "m div 2 < 2 ^ bitlen (m div 2)" by simp_all
    have b: "bitlen m = Suc (bitlen (m div 2))" using "1.prems" by (simp add: bitlen.simps)
    obtain k where k: "bitlen (m div 2) = Suc k" using h0 by (cases "bitlen (m div 2)") (simp_all add: bitlen.simps)
    have "2 * 2 ^ k \<le> m" using ih(1) k by simp
    moreover have "m < 2 * 2 ^ Suc k" using ih(2) k by simp
    ultimately show ?thesis using b k by simp
  qed
qed

lemma bitlen_le: "m < 2 ^ k \<Longrightarrow> bitlen m \<le> k"
proof (cases "m = 0")
  case False
  assume "m < 2 ^ k"
  moreover have "2 ^ (bitlen m - 1) \<le> m" using bitlen_bounds [of m] False by simp
  ultimately have "(2::nat) ^ (bitlen m - 1) < 2 ^ k" by linarith
  then have "bitlen m - 1 < k" by simp
  then show ?thesis by simp
qed (simp add: bitlen.simps)

lemma round53_small: "m < 2 ^ 53 \<Longrightarrow> round53 m = m"
  using bitlen_le [of m 53] by (simp add: round53_def Let_def)

lemma round53_le: "round53 m \<le> m + m div 2 ^ 52"
proof (cases "bitlen m \<le> 53")
  case True
  then show ?thesis by (simp add: round53_def Let_def)
next
  case False
  define e where "e = bitlen m - 53"
  have m0: "0 < m" using False by (cases "m = 0") (simp_all add: bitlen.simps)
  have "2 ^ (bitlen m - 1) \<le> m" using bitlen_bounds [OF m0] by simp
  moreover have "bitlen m - 1 = e + 52" using False by (simp add: e_def)
  ultimately have "2 ^ e * 2 ^ 52 \<le> m" by (simp add: power_add)
  then have pe: "2 ^ e \<le> m div 2 ^ 52" by (simp add: le_div_geq less_eq_div_iff_mult_less_eq)
  have "(m div 2 ^ e + 1) * 2 ^ e \<le> m + 2 ^ e"
    by (simp add: algebra_simps)
  moreover have "round53 m \<le> (m div 2 ^ e + 1) * 2 ^ e"
    by (simp add: round53_def Let_def e_def [symmetric])
  ultimately have "round53 m \<le> m + 2 ^ e" by linarith
  then show ?thesis using pe by simp
qed

lemma round53_scaled:
  assumes "n < 2 ^ 31" "0 < A"
  shows "round53 (A * n) div 2 ^ 31 < A"
proof -
  have "A * n < A * 2 ^ 52" using assms by simp
  then have d: "A * n div 2 ^ 52 < A" by (simp add: div_less_iff_less_mult)
  have "A * (n + 1) \<le> A * 2 ^ 31" using assms(1) by (intro mult_le_mono2) simp
  then have h: "A * n + A \<le> A * 2 ^ 31" by (simp add: algebra_simps)
  have "round53 (A * n) < A * 2 ^ 31"
    using round53_le [of "A * n"] d h by linarith
  then show ?thesis by (simp add: div_less_iff_less_mult)
qed

lemma round53_0: "round53 0 = 0"
  by (simp add: round53_def bitlen.simps)

lemma round_double_nat: "round_double (int m) = int (round53 m)"
  by (cases "m = 0") (simp_all add: round_double_def round53_0)

lemma rand_range_nat:
  assumes "unat n < 2 ^ 31" "mn \<le> mx"
  shows "unat (rand_range n mn mx) = unat mn + round53 ((unat mx - unat mn + 1) * unat n) div 2 ^ 31
    \<and> round53 ((unat mx - unat mn + 1) * unat n) div 2 ^ 31 \<le> unat mx - unat mn"
proof -
  let ?A = "unat mx - unat mn + 1" and ?n = "unat n"
  let ?t = "round53 (?A * ?n) div 2 ^ 31"
  have le: "unat mn \<le> unat mx" using assms(2) by (simp add: word_le_nat_alt)
  have a: "int (unat mx) - int (unat mn) + 1 = int ?A" using le by simp
  have t: "?t \<le> unat mx - unat mn" using round53_scaled [OF assms(1), of ?A] by simp
  have sg: "sgn (int (round53 (?A * ?n))) * (\<bar>int (round53 (?A * ?n))\<bar> div (0x7FFFFFFF + 1)) = int ?t"
    by (cases "round53 (?A * ?n) = 0") (simp_all add: zdiv_int)
  have "rand_range n mn mx = word_of_int (int (unat mn) + int ?t)"
    unfolding rand_range_def Let_def a of_nat_mult [symmetric] round_double_nat PHP_MT_RAND_MAX_def sg ..
  then have r: "rand_range n mn mx = of_nat (unat mn + ?t)" by simp
  have "unat mn + ?t \<le> unat mx" using t le by simp
  then have "unat (of_nat (unat mn + ?t) :: u32) = unat mn + ?t" by (rule le_unat_uoi)
  then show ?thesis using t r by simp
qed

lemma php_mt_rand_less:
  assumes "php_mt_rand s = Inr (n, s')"
  shows "unat n < 2 ^ 31"
proof -
  obtain r where "n = drop_bit 1 r"
    using assms by (auto simp: php_mt_rand_def split: sum.splits)
  then show ?thesis using unat_u32_less [of r] by (simp add: unat_drop_bit_eq drop_bit_eq_div unat_div)
qed


subsection \<open>Properties\<close>

text \<open>C23: The generator state stays well formed: the state vector keeps its \<open>N\<close>
  words and \<open>left + next = N\<close> while words are left.  So every \<open>mt_rand\<close> on a
  well-formed state reads inside the vector (no read past \<open>state[N - 1]\<close>) and
  leaves a well-formed state, and \<open>mt_srand\<close> gives a well-formed state.\<close>

theorem mt_rand_wf:
  assumes "mt_wf s"
  shows "(\<exists>r s'. mt_rand s = Inr (r, s') \<and> mt_wf s') \<and> mt_wf (mt_srand seed s)"
proof
  have len: "length (state s) = mtN" using assms by (simp add: mt_wf_def)
  show "\<exists>r s'. mt_rand s = Inr (r, s') \<and> mt_wf s'"
  proof (cases "left s = 0")
    case True
    then show ?thesis using len by (simp add: mt_rand_reload mt_wf_def mtN_mtM)
  next
    case False
    then have run: "unat (left s) + next_pos s = mtN" using assms by (simp add: mt_wf_def)
    have pos: "0 < unat (left s)" using False by (simp add: unat_gt_0)
    then have "next_pos s < length (state s)" using run len by simp
    moreover have "unat (left s - 1) = unat (left s) - 1"
      using False by (simp add: unat_minus_one)
    ultimately show ?thesis
      using False run len pos by (simp add: mt_rand_running mt_wf_def)
  qed
next
  show "mt_wf (mt_srand seed s)"
    using assms by (simp add: mt_wf_def mt_srand_def mtInitialize_def)
qed

theorem mt_rand_wf_witness:
  "mt_wf \<lparr>state = replicate 624 0, left = 0, next_pos = 0\<rparr>
   \<and> (\<exists>r s'. mt_rand \<lparr>state = replicate 624 0, left = 0, next_pos = 0\<rparr> = Inr (r, s') \<and> mt_wf s')"
proof -
  have h: "mt_wf \<lparr>state = replicate 624 (0::u32), left = 0, next_pos = 0\<rparr>"
    by (simp add: mt_wf_def mtN_mtM)
  show ?thesis using h mt_rand_wf [OF h] by blast
qed

text \<open>C37: \<open>php_mt_rand_range\<close> draws one \<open>php_mt_rand\<close> and returns a value in
  \<open>[min, max]\<close> for every range with \<open>min \<le> max\<close>, the \<open>double\<close> rounding
  included; for ranges of fewer than \<open>2^22\<close> values no rounding happens and the result
  is \<open>min + (max - min + 1) * num div 2^31\<close>.\<close>

theorem php_mt_rand_range_bounds:
  assumes "php_mt_rand s = Inr (n, s')" "mn \<le> mx"
  shows "\<exists>r. php_mt_rand_range s mn mx = Inr (r, s') \<and> mn \<le> r \<and> r \<le> mx
    \<and> (unat mx - unat mn < 2 ^ 22 \<longrightarrow> unat r = unat mn + (unat mx - unat mn + 1) * unat n div 2 ^ 31)"
proof -
  let ?A = "unat mx - unat mn + 1"
  have n: "unat n < 2 ^ 31" using php_mt_rand_less [OF assms(1)] .
  have le: "unat mn \<le> unat mx" using assms(2) by (simp add: word_le_nat_alt)
  note rr = rand_range_nat [OF n assms(2)]
  have "mn \<le> rand_range n mn mx" using rr by (simp add: word_le_nat_alt)
  moreover have "rand_range n mn mx \<le> mx" using rr le by (simp add: word_le_nat_alt le_diff_conv2)
  moreover have "unat (rand_range n mn mx) = unat mn + ?A * unat n div 2 ^ 31"
    if "unat mx - unat mn < 2 ^ 22"
  proof -
    have "?A * unat n \<le> 2 ^ 22 * unat n" using that by (intro mult_le_mono1) simp
    also have "\<dots> < 2 ^ 22 * 2 ^ 31" using n by simp
    finally have "?A * unat n < 2 ^ 53" by simp
    then have "round53 (?A * unat n) = ?A * unat n" by (rule round53_small)
    then show ?thesis using rr by simp
  qed
  ultimately show ?thesis using assms(1) by (simp add: php_mt_rand_range_def)
qed

theorem php_mt_rand_range_bounds_witness:
  "php_mt_rand \<lparr>state = [0], left = 1, next_pos = 0\<rparr> = Inr (0, \<lparr>state = [0], left = 0, next_pos = 1\<rparr>)
   \<and> (1000 :: u32) \<le> 2000
   \<and> (\<exists>r. php_mt_rand_range \<lparr>state = [0], left = 1, next_pos = 0\<rparr> 1000 2000 =
          Inr (r, \<lparr>state = [0], left = 0, next_pos = 1\<rparr>) \<and> 1000 \<le> r \<and> r \<le> 2000
        \<and> (unat (2000 :: u32) - unat (1000 :: u32) < 2 ^ 22 \<longrightarrow>
             unat r = unat (1000 :: u32) + (unat (2000 :: u32) - unat (1000 :: u32) + 1) * unat (0 :: u32) div 2 ^ 31))"
proof -
  have p: "php_mt_rand \<lparr>state = [0], left = 1, next_pos = 0\<rparr> = Inr (0, \<lparr>state = [0], left = 0, next_pos = 1\<rparr>)"
    using mt_rand_running [of "\<lparr>state = [0], left = 1, next_pos = 0\<rparr>"] by (simp add: php_mt_rand_def mt_temper_def)
  have le: "(1000 :: u32) \<le> 2000" by simp
  note c = php_mt_rand_range_bounds [OF p le]
  show ?thesis by (simp only: p le c simp_thms)
qed


end
