(* ===== verification/Wikihash.thy ===== *)
theory Wikihash
  imports MT
begin

text \<open>
  The \<open>wikihash\<close> plug-in of \<open>src/snowflake/rand.c\<close> (lines 78--194): the seed of
  a MediaWiki token is mapped to the MD5 of the lowercase hexadecimal numerals of the
  fifth and sixth outputs of PHP's \<open>mt_rand\<close>.  Instead of running the generator it
  initialises only the first \<open>N - 200\<close> state words (\<open>php_mt_initialize\<close>) and
  computes the two reloaded words it needs with the \<open>twist\<close> macro at
  \<open>OFFSET = 4\<close>.  The state array is the uninitialised stack array \<open>state[N]\<close>:
  its prior content is the argument \<open>junk\<close>.  MD5 is not in the repository
  (\<open>md5.h\<close>); it is the parameter \<open>md5\<close>, applied to the \<open>len\<close> bytes of
  \<open>buf\<close> handed to \<open>MD5_Update\<close>.
\<close>

definition twist :: "u32 \<Rightarrow> u32 \<Rightarrow> u32 \<Rightarrow> u32" where
  "twist m u v = m XOR drop_bit 1 (mixBits u v) XOR ((- (u AND 1)) AND 0x9908b0df)"

definition php_mt_initialize :: "u32 \<Rightarrow> u32 list \<Rightarrow> u32 list" where
  "php_mt_initialize seed st = mt_init_upto (mtN - 200) seed st"

definition temper :: "u32 \<Rightarrow> u32" where
  "temper y =
     (let y = y XOR drop_bit 11 y;
          y = y XOR (push_bit 7 y AND 0x9d2c5680);
          y = y XOR (push_bit 15 y AND 0xefc60000)
      in y XOR drop_bit 18 y)"

definition OFFSET :: nat where "OFFSET = 4"

definition digits :: string where
  "digits = ''0123456789abcdefghijklmnopqrstuvwxyz''"

text \<open>One do-while loop of \<open>hexConvert\<close>: \<open>*--ptr = digits[value % 16]\<close>,
  \<open>value /= 16\<close>, \<open>len++\<close>, while \<open>ptr > buf && value\<close>.  \<open>room\<close> is
  \<open>ptr - buf\<close>, \<open>acc\<close> the characters from \<open>ptr\<close> to the terminator.  A write at
  \<open>ptr = buf\<close> would land before the buffer: \<open>OutOfBounds\<close>.\<close>

function hex_loop :: "nat \<Rightarrow> nat \<Rightarrow> string \<Rightarrow> nat \<Rightarrow> error + nat \<times> string \<times> nat" where
  "hex_loop value room acc len =
     (if room = 0 then Inl OutOfBounds
      else (let room' = room - 1; acc' = digits ! (value mod 16) # acc;
                value' = value div 16; len' = len + 1
            in if 0 < room' \<and> value' \<noteq> 0 then hex_loop value' room' acc' len'
               else Inr (room', acc', len')))"
  by pat_completeness auto
termination
  by (relation "measure (\<lambda>(v, _, _, _). v)") auto

declare hex_loop.simps [simp del]

text \<open>\<open>end = ptr = buf + 32 - 1\<close>, the digits of \<open>n2\<close>, then those of \<open>n1\<close> in
  front, \<open>strcpy(buf, ptr)\<close>, \<open>return len\<close>.\<close>

definition hexConvert :: "u32 \<Rightarrow> u32 \<Rightarrow> error + string \<times> nat" where
  "hexConvert n1 n2 =
     (case hex_loop (unat n2) 31 [] 0 of
        Inl e \<Rightarrow> Inl e
      | Inr (room, acc, len) \<Rightarrow>
          (case hex_loop (unat n1) room acc len of
             Inl e \<Rightarrow> Inl e
           | Inr (_, buf, len') \<Rightarrow> Inr (buf, len')))"

definition mediawikiHash :: "(string \<Rightarrow> digest) \<Rightarrow> u32 list \<Rightarrow> u32 \<Rightarrow> error + digest" where
  "mediawikiHash md5 junk seed =
     (let p = php_mt_initialize seed junk;
          r1 = drop_bit 1 (temper (twist (p ! (mtM + OFFSET)) (p ! OFFSET) (p ! (1 + OFFSET))));
          r2 = drop_bit 1 (temper (twist (p ! (mtM + OFFSET + 1)) (p ! (OFFSET + 1)) (p ! (1 + OFFSET + 1))))
      in case hexConvert r1 r2 of
           Inl e \<Rightarrow> Inl e
         | Inr (buf, len) \<Rightarrow> Inr (md5 (take len buf)))"

text \<open>The plug-in's export \<open>hashFuncArray\<close>: one entry and the zero terminator.\<close>

definition hashFuncArray :: "(string \<Rightarrow> digest) \<Rightarrow> u32 list \<Rightarrow> (string \<times> (u32 \<Rightarrow> error + digest) \<times> u32) list" where
  "hashFuncArray md5 junk = [(''wikihash'', mediawikiHash md5 junk, 16)]"

text \<open>The lowercase hexadecimal numeral of a number, most significant digit first.\<close>

fun hex_ref :: "nat \<Rightarrow> string" where
  "hex_ref n = (if n < 16 then [digits ! n] else hex_ref (n div 16) @ [digits ! (n mod 16)])"

declare hex_ref.simps [simp del]

subsection \<open>Lemmas\<close>

lemma twist_php_twist: "twist = php_twist"
  by (simp add: fun_eq_iff twist_def php_twist_def)

lemma temper_mt_temper: "temper = mt_temper"
  by (simp add: fun_eq_iff temper_def mt_temper_def)

lemma hex_ref_nonempty: "hex_ref n \<noteq> []"
  by (subst hex_ref.simps) simp

lemma length_hex_ref_le: "n < 16 ^ k \<Longrightarrow> 0 < k \<Longrightarrow> length (hex_ref n) \<le> k"
proof (induction n arbitrary: k rule: hex_ref.induct)
  case (1 n)
  show ?case
  proof (cases "n < 16")
    case True
    with "1.prems" show ?thesis by (subst hex_ref.simps) simp
  next
    case False
    then obtain k' where k: "k = Suc k'" using "1.prems" by (cases k) auto
    with False "1.prems" have "n div 16 < 16 ^ k'" "0 < k'"
      by (auto simp: less_mult_imp_div_less mult.commute intro: ccontr)
    with "1.IH" False k show ?thesis by (subst hex_ref.simps) simp
  qed
qed

text \<open>With room for all digits, the loop writes exactly the numeral in front of what
  is already there.\<close>

lemma hex_loop_ref:
  "length (hex_ref v) \<le> room \<Longrightarrow>
   hex_loop v room acc len = Inr (room - length (hex_ref v), hex_ref v @ acc, len + length (hex_ref v))"
proof (induction v room acc len rule: hex_loop.induct)
  case (1 v room acc len)
  have r: "room \<noteq> 0" using "1.prems" hex_ref_nonempty [of v] by (cases "hex_ref v") auto
  show ?case
  proof (cases "v < 16")
    case True
    then have "hex_ref v = [digits ! v]" by (subst hex_ref.simps) simp
    with True r show ?thesis by (subst hex_loop.simps) simp
  next
    case False
    then have h: "hex_ref v = hex_ref (v div 16) @ [digits ! (v mod 16)]"
      by (subst hex_ref.simps) simp
    have d: "v div 16 \<noteq> 0" using False by simp
    have pos: "length (hex_ref (v div 16)) \<noteq> 0" using hex_ref_nonempty [of "v div 16"] by simp
    have hl: "length (hex_ref v) = length (hex_ref (v div 16)) + 1" using h by simp
    have l: "length (hex_ref (v div 16)) \<le> room - 1" "0 < room - 1"
      using "1.prems" pos hl by linarith+
    have ih: "hex_loop (v div 16) (room - 1) (digits ! (v mod 16) # acc) (len + 1) =
      Inr (room - 1 - length (hex_ref (v div 16)), hex_ref (v div 16) @ digits ! (v mod 16) # acc,
           len + 1 + length (hex_ref (v div 16)))"
      using "1.IH" [OF r refl refl refl refl] l d by simp
    show ?thesis
      using r l d ih h by (subst hex_loop.simps) (simp add: Let_def)
  qed
qed

lemma length_hex_ref_u32: "length (hex_ref (unat (w :: u32))) \<le> 8"
proof (rule length_hex_ref_le)
  show "unat w < 16 ^ 8" using unat_u32_less [of w] by simp
qed simp

lemma hexConvert_ref:
  "hexConvert n1 n2 = Inr (hex_ref (unat n1) @ hex_ref (unat n2),
                            length (hex_ref (unat n1)) + length (hex_ref (unat n2)))"
proof -
  let ?a = "hex_ref (unat n1)" and ?b = "hex_ref (unat n2)"
  have la: "length ?a \<le> 8" and lb: "length ?b \<le> 8" by (rule length_hex_ref_u32)+
  have "hex_loop (unat n2) 31 [] 0 = Inr (31 - length ?b, ?b, length ?b)"
    using lb hex_loop_ref [of "unat n2" 31 "[]" 0] by simp
  moreover have "hex_loop (unat n1) (31 - length ?b) ?b (length ?b) =
    Inr (31 - length ?b - length ?a, ?a @ ?b, length ?b + length ?a)"
    using la lb by (intro hex_loop_ref) simp
  ultimately show ?thesis by (simp add: hexConvert_def)
qed

lemma php_mt_initialize_nth:
  "k < 424 \<Longrightarrow> length junk = mtN \<Longrightarrow> php_mt_initialize seed junk ! k = mt_seq seed k"
  unfolding php_mt_initialize_def by (rule mt_init_upto_nth) (simp_all add: mtN_mtM)

subsection \<open>Properties\<close>

text \<open>C25: \<open>hexConvert(buf, n1, n2)\<close> never writes before \<open>buf\<close> and leaves in
  \<open>buf\<close> the lowercase hexadecimal numeral of \<open>n1\<close> followed by that of \<open>n2\<close>
  (no leading zeros, \<open>0\<close> for zero), returning their total length: 32 bytes are
  always enough for two 32-bit values.\<close>

theorem hexConvert_correct:
  "hexConvert n1 n2 = Inr (hex_ref (unat n1) @ hex_ref (unat n2),
                            length (hex_ref (unat n1) @ hex_ref (unat n2)))
   \<and> length (hex_ref (unat n1) @ hex_ref (unat n2)) \<le> 16"
  using hexConvert_ref [of n1 n2] length_hex_ref_u32 [of n1] length_hex_ref_u32 [of n2] by simp

text \<open>C22: Equivalence of the \<open>wikihash\<close> shortcut with the reference generator: for
  every seed and whatever the uninitialised stack array holds, \<open>mediawikiHash\<close>
  hashes the hexadecimal numerals of the fifth and sixth outputs of \<open>php_mt_rand\<close>
  after \<open>mt_srand(seed)\<close>, although it initialises only \<open>N - 200\<close> words and
  never reloads: the words it reads (up to \<open>M + OFFSET + 2\<close>) are all initialised,
  and the first \<open>N - M\<close> reloaded words depend only on words before the reload.\<close>

theorem mediawikiHash_eq_mt_rand:
  assumes "length junk = mtN" "length (state s) = mtN"
  shows "\<exists>os s'. php_mt_rands 6 (mt_srand seed s) = Inr (os, s')
    \<and> mediawikiHash md5 junk seed = Inr (md5 (hex_ref (unat (os ! 4)) @ hex_ref (unat (os ! 5))))"
proof -
  obtain os s' where r4: "php_mt_rands 6 (mt_srand seed s) = Inr (os, s')"
    and o4: "os ! 4 = drop_bit 1 (mt_temper (php_twist (mt_seq seed (4 + mtM)) (mt_seq seed 4) (mt_seq seed 5)))"
    using mt_srand_outputs [OF assms(2), of 4 6 seed] by (auto simp: mtN_mtM)
  obtain os' s'' where r5: "php_mt_rands 6 (mt_srand seed s) = Inr (os', s'')"
    and o5: "os' ! 5 = drop_bit 1 (mt_temper (php_twist (mt_seq seed (5 + mtM)) (mt_seq seed 5) (mt_seq seed 6)))"
    using mt_srand_outputs [OF assms(2), of 5 6 seed] by (auto simp: mtN_mtM)
  have same: "os' = os" using r4 r5 by simp
  let ?p = "php_mt_initialize seed junk"
  have p: "?p ! k = mt_seq seed k" if "k < 424" for k
    using that assms(1) by (rule php_mt_initialize_nth)
  have "drop_bit 1 (temper (twist (?p ! (mtM + OFFSET)) (?p ! OFFSET) (?p ! (1 + OFFSET)))) = os ! 4"
    using o4 p [of 401] p [of 4] p [of 5]
    by (simp add: OFFSET_def mtN_mtM twist_php_twist temper_mt_temper)
  moreover have "drop_bit 1 (temper (twist (?p ! (mtM + OFFSET + 1)) (?p ! (OFFSET + 1)) (?p ! (1 + OFFSET + 1)))) = os ! 5"
    using o5 same p [of 402] p [of 5] p [of 6]
    by (simp add: OFFSET_def mtN_mtM twist_php_twist temper_mt_temper)
  ultimately have "mediawikiHash md5 junk seed = Inr (md5 (hex_ref (unat (os ! 4)) @ hex_ref (unat (os ! 5))))"
    by (simp add: mediawikiHash_def Let_def hexConvert_ref)
  with r4 show ?thesis by blast
qed

theorem mediawikiHash_eq_mt_rand_witness:
  "length (replicate 624 (0::u32)) = mtN
   \<and> (\<exists>os s'. php_mt_rands 6 (mt_srand 1000 \<lparr>state = replicate 624 0, left = 0, next_pos = 0\<rparr>) = Inr (os, s')
        \<and> mediawikiHash (\<lambda>_. []) (replicate 624 0) 1000 =
            Inr ((\<lambda>_. []) (hex_ref (unat (os ! 4)) @ hex_ref (unat (os ! 5)))))"
proof -
  have h: "length (replicate 624 (0::u32)) = mtN" by (simp add: mtN_mtM)
  have "length (state \<lparr>state = replicate 624 (0::u32), left = 0, next_pos = 0\<rparr>) = mtN"
    by (simp add: mtN_mtM)
  with h show ?thesis using mediawikiHash_eq_mt_rand [OF h] by blast
qed

end
