(* ===== verification/Tool.thy ===== *)
theory Tool
  imports Crack Store Names Lookup Wikihash
begin

text \<open>
  The top level of \<open>src/unnamed/part_000\<close>: \<open>bytesFromHash\<close> (lines 662--678),
  \<open>generateRainbowTable\<close> (lines 363--385), \<open>searchRainbowTable\<close>
  (lines 512--559) and \<open>main\<close> (lines 692--738: \<open>atoi\<close>, the dispatch on the mode,
  the generate loop, the search and crack branches and the verdict printed), composed
  from the components of the other theories; and \<open>readable\<close> of
  \<open>src/snowflake/rand.c\<close> (lines 197--210), which prints a digest the way
  \<open>bytesFromHash\<close> reads it.  The file system is the map \<open>fs\<close> of Store; the
  composite operations are inductive result relations, since the generator pool and
  the exhaustive searcher they call are.  Strings are character lists; a read of a C
  string past its terminator is \<open>OutOfBounds\<close>.  The lemmas show the digest text
  round trip, that a generated table is sorted and genuine, the frame of the generate
  loop, and the exit status of \<open>main\<close>.
\<close>

definition MAX_HASH_SIZE :: nat where "MAX_HASH_SIZE = 64"

text \<open>\<open>s[k]\<close> of a C string: the terminator at \<open>k = strlen(s)\<close>, nothing beyond.\<close>

definition str_at :: "string \<Rightarrow> nat \<Rightarrow> error + char" where
  "str_at s k = (if k < length s then Inr (s ! k) else if k = length s then Inr CHR 0x00 else Inl OutOfBounds)"

definition is_xdigit :: "char \<Rightarrow> bool" where
  "is_xdigit ch \<longleftrightarrow> is_digit ch \<or> ((97 :: nat) \<le> of_char ch \<and> (of_char ch :: nat) \<le> 102)
                     \<or> ((65 :: nat) \<le> of_char ch \<and> (of_char ch :: nat) \<le> 70)"

definition xdigit_val :: "char \<Rightarrow> nat" where
  "xdigit_val ch = (if is_digit ch then digit_val ch
                    else if (97 :: nat) \<le> of_char ch then of_char ch - 87 else of_char ch - 55)"

text \<open>\<open>sscanf(num, "%x", &hexnum)\<close>: blanks, an optional sign, hexadecimal digits;
  \<open>None\<close> (no assignment) when there is no digit.\<close>

definition scan_hex :: "string \<Rightarrow> u32 option" where
  "scan_hex s =
     (let s1 = dropWhile is_space s;
          (neg, s2) = (case s1 of ch # r \<Rightarrow> if ch = CHR ''-'' then (True, r)
                                             else if ch = CHR ''+'' then (False, r) else (False, s1)
                                | [] \<Rightarrow> (False, s1));
          ds = takeWhile is_xdigit s2;
          v = foldl (\<lambda>acc ch. 16 * acc + xdigit_val ch) 0 ds
      in if ds = [] then None else Some (if neg then - of_nat v else of_nat v))"

text \<open>The loop \<open>for (i = j = 0; i < 32; i += 2)\<close>: two characters into \<open>num\<close>
  (a C string, so it ends at a terminator), \<open>%x\<close> into \<open>hexnum\<close>, which keeps its
  previous value when nothing is read, and \<open>bytes[j++] = hexnum\<close>.\<close>

function bfh_loop :: "string \<Rightarrow> nat \<Rightarrow> u32 \<Rightarrow> u8 list \<Rightarrow> error + u8 list" where
  "bfh_loop hash i hexnum acc =
     (if i < 32 then
        (case str_at hash i of
           Inl e \<Rightarrow> Inl e
         | Inr c0 \<Rightarrow>
             (case str_at hash (i + 1) of
                Inl e \<Rightarrow> Inl e
              | Inr c1 \<Rightarrow>
                  (let num = takeWhile (\<lambda>ch. ch \<noteq> CHR 0x00) [c0, c1];
                       h = (case scan_hex num of Some v \<Rightarrow> v | None \<Rightarrow> hexnum)
                   in bfh_loop hash (i + 2) h (acc @ [ucast h]))))
      else Inr acc)"
  by pat_completeness auto
termination
  by (relation "measure (\<lambda>(_, i, _, _). 32 - i)") auto

declare bfh_loop.simps [simp del]

text \<open>\<open>bytesFromHash(bytes, hash)\<close>: the 16 bytes read, after them the zeros of
  \<open>memset(bytes, '\0', MAX_HASH_SIZE)\<close>; \<open>hexnum0\<close> is the indeterminate initial
  value of \<open>hexnum\<close>.\<close>

definition bytesFromHash :: "u32 \<Rightarrow> string \<Rightarrow> error + u8 list" where
  "bytesFromHash hexnum0 hash =
     (case bfh_loop hash 0 hexnum0 [] of
        Inl e \<Rightarrow> Inl e
      | Inr bs \<Rightarrow> Inr (bs @ replicate (MAX_HASH_SIZE - length bs) 0))"

text \<open>\<open>readable\<close>: \<open>sprintf(encoded, "%02hhx", *data)\<close> for the 16 bytes of a digest.\<close>

definition hex2 :: "u8 \<Rightarrow> string" where
  "hex2 b = [digits ! (unat b div 16), digits ! (unat b mod 16)]"

definition readable :: "u8 list \<Rightarrow> string" where
  "readable data = concat (map hex2 (take 16 data))"

subsection \<open>Generating a table\<close>

text \<open>\<open>fopen(tableName, "w")\<close> truncates the file, the workers write the chains:
  the file after \<open>createRainbowTable\<close>, \<open>None\<close> when it could not be opened.\<close>

definition write_table :: "fs \<Rightarrow> string \<Rightarrow> chain list option \<Rightarrow> fs" where
  "write_table files name f = (case f of None \<Rightarrow> files | Some cs \<Rightarrow> files(name \<mapsto> encode_table cs))"

text \<open>\<open>generateRainbowTable\<close>: \<open>-1\<close> for an unknown hash function; otherwise the
  table is created under \<open>generateTableName\<close> and, unless that failed, sorted; the
  result is \<open>-1\<close> when either returned a negative value, else \<open>1\<close>.  The generator
  state \<open>g\<close> the workers start from is a parameter.\<close>

inductive generateRainbowTable ::
  "(string \<Rightarrow> hash_fn dl_lib) \<Rightarrow> rt_env \<Rightarrow> os_env \<Rightarrow> cmwc_state \<Rightarrow> fs \<Rightarrow> u32 \<Rightarrow> u32 \<Rightarrow> u32 \<Rightarrow> string
    \<Rightarrow> error + int \<times> fs \<Rightarrow> bool"
  for loader env os g files chainNum chainLen index hashName where
  unresolved: "resolveHashFunc loader hashName = None \<Longrightarrow>
    generateRainbowTable loader env os g files chainNum chainLen index hashName (Inr (-1, files))"
| create_fail: "resolveHashFunc loader hashName = Some (H, hashLen) \<Longrightarrow>
    createRainbowTable env g chainNum chainLen H hashLen r f \<Longrightarrow> r < 0 \<Longrightarrow>
    generateRainbowTable loader env os g files chainNum chainLen index hashName
      (Inr (-1, write_table files (generateTableName hashName chainNum chainLen index) f))"
| sorted: "resolveHashFunc loader hashName = Some (H, hashLen) \<Longrightarrow>
    createRainbowTable env g chainNum chainLen H hashLen r f \<Longrightarrow> \<not> r < 0 \<Longrightarrow>
    sortRainbowTable os (write_table files (generateTableName hashName chainNum chainLen index) f)
      (generateTableName hashName chainNum chainLen index) chainNum = res \<Longrightarrow>
    generateRainbowTable loader env os g files chainNum chainLen index hashName
      (case res of Inl e \<Rightarrow> Inl e | Inr (r', files') \<Rightarrow> Inr (if r' < 0 then -1 else 1, files'))"

inductive_cases generateRainbowTableE: "generateRainbowTable loader env os g files cn cl idx name res"

subsection \<open>Searching a table\<close>

text \<open>\<open>searchRainbowTable\<close>: the table name gives the hash function and the table
  parameters; what \<open>sscanf\<close> did not assign keeps the indeterminate initial value
  \<open>ind = (hashFuncName, chainNum, chainLen)\<close>.  The file is mapped and searched in
  memory; the result is the return value and the seed written, \<open>None\<close> when
  \<open>searchHashInMemory\<close> does not return.\<close>

definition searchRainbowTable ::
  "(string \<Rightarrow> hash_fn dl_lib) \<Rightarrow> os_env \<Rightarrow> fs \<Rightarrow> string \<times> u32 \<times> u32 \<Rightarrow> string \<Rightarrow> digest
    \<Rightarrow> (error + int \<times> u32 option) option" where
  "searchRainbowTable loader os files ind tableName targetHash =
     (case parseTablename tableName of
        Inl e \<Rightarrow> Some (Inl e)
      | Inr (r, name, cn, cl) \<Rightarrow>
          if r < 0 then Some (Inr (-1, None))
          else (let (fn0, cn0, cl0) = ind;
                    hashFuncName = (case name of Some w \<Rightarrow> w | None \<Rightarrow> fn0);
                    chainNum = (case cn of Some n \<Rightarrow> n | None \<Rightarrow> cn0);
                    chainLen = (case cl of Some n \<Rightarrow> n | None \<Rightarrow> cl0)
                in case resolveHashFunc loader hashFuncName of
                     None \<Rightarrow> Some (Inr (-1, None))
                   | Some (H, hashLen) \<Rightarrow>
                       (case files tableName of
                          None \<Rightarrow> Some (Inr (-1, None))
                        | Some bs \<Rightarrow>
                            if \<not> fstat_ok os then Some (Inr (-1, None))
                            else if \<not> mmap_ok os then Some (Inr (-1, None))
                            else (case searchHashInMemory (decode_table bs) chainNum chainLen H hashLen targetHash of
                                    None \<Rightarrow> None
                                  | Some (Inl e) \<Rightarrow> Some (Inl e)
                                  | Some (Inr None) \<Rightarrow> Some (Inr (0, None))
                                  | Some (Inr (Some s)) \<Rightarrow> Some (Inr (1, Some s))))))"

subsection \<open>The command line\<close>

text \<open>\<open>atoi\<close>: blanks, an optional sign, decimal digits (0 when there is none);
  the \<open>int\<close> it returns is given to \<open>unsigned int\<close> parameters, which wraps.\<close>

definition atoi :: "string \<Rightarrow> int" where
  "atoi s =
     (let s1 = dropWhile is_space s;
          (neg, s2) = (case s1 of ch # r \<Rightarrow> if ch = CHR ''-'' then (True, r)
                                             else if ch = CHR ''+'' then (False, r) else (False, s1)
                                | [] \<Rightarrow> (False, s1));
          v = int (foldl (\<lambda>acc ch. 10 * acc + digit_val ch) 0 (takeWhile is_digit s2))
      in if neg then - v else v)"

text \<open>The branches of \<open>main\<close> on \<open>argv\<close> (\<open>argv ! 0\<close> is the program name).\<close>

datatype mode =
    Usage
  | Generate u32 u32 u32 string
  | Search string string
  | CrackHash string string
  | InvalidArgs
  | InvalidMode

definition main_mode :: "string list \<Rightarrow> mode" where
  "main_mode argv =
     (if length argv < 2 then Usage
      else if argv ! 1 = ''generate'' then
        (if length argv \<noteq> 6 then InvalidArgs
         else Generate (word_of_int (atoi (argv ! 2))) (word_of_int (atoi (argv ! 3)))
                       (word_of_int (atoi (argv ! 4))) (argv ! 5))
      else if argv ! 1 = ''search'' then
        (if length argv \<noteq> 4 then InvalidArgs else Search (argv ! 2) (argv ! 3))
      else if argv ! 1 = ''crack'' then
        (if length argv \<noteq> 4 then InvalidArgs else CrackHash (argv ! 2) (argv ! 3))
      else InvalidMode)"

text \<open>Line ends and tabs in the texts \<open>main\<close> prints.\<close>

abbreviation LF :: string where "LF \<equiv> [CHR 0x0A]"

abbreviation TAB :: string where "TAB \<equiv> [CHR 0x09]"

text \<open>\<open>usage()\<close>: the text written to \<open>stderr\<close>.\<close>

definition usage_text :: string where
  "usage_text =
     ''snowflake: hash cracking utility.'' @ LF @ ''Usage: snowflake [mode] [options]'' @ LF @ ''Modes:'' @ LF
     @ TAB @ '' generate <chain num> <chain len> <table num> <hash function>'' @ LF
     @ TAB @ '' search <rainbow table> <target hash>'' @ LF
     @ TAB @ '' crack  <hash function> <target hash>'' @ LF @ LF"

text \<open>The verdict \<open>main\<close> prints for a search result, as the pair of what goes to
  \<open>stdout\<close> and to \<open>stderr\<close>; \<open>sd\<close> is the value of the variable \<open>seed\<close> after the
  search.\<close>

definition report :: "int \<Rightarrow> u32 \<Rightarrow> string \<times> string" where
  "report ret sd =
     (if 0 < ret then (''[+] Seed found: '' @ dec_string (unat sd) @ LF, [])
      else if ret = 0 then (''[-] Seed not found :-('' @ LF, [])
      else ([], ''[-] An error occured.'' @ LF))"

text \<open>\<open>for (i = 0; i < tnum; i ++) generateRainbowTable(\<dots>, i, argv[5])\<close>: the
  return values are ignored; each call may start from any generator state.\<close>

inductive gen_tables ::
  "(string \<Rightarrow> hash_fn dl_lib) \<Rightarrow> rt_env \<Rightarrow> os_env \<Rightarrow> u32 \<Rightarrow> u32 \<Rightarrow> string \<Rightarrow> nat \<Rightarrow> nat \<Rightarrow> fs
    \<Rightarrow> error + fs \<Rightarrow> bool"
  for loader env os chainNum chainLen hashName tnum where
  stop: "tnum \<le> i \<Longrightarrow> gen_tables loader env os chainNum chainLen hashName tnum i files (Inr files)"
| step: "i < tnum \<Longrightarrow>
    generateRainbowTable loader env os g files chainNum chainLen (of_nat i) hashName (Inr (r, files1)) \<Longrightarrow>
    gen_tables loader env os chainNum chainLen hashName tnum (Suc i) files1 out \<Longrightarrow>
    gen_tables loader env os chainNum chainLen hashName tnum i files out"
| undefined: "i < tnum \<Longrightarrow>
    generateRainbowTable loader env os g files chainNum chainLen (of_nat i) hashName (Inl e) \<Longrightarrow>
    gen_tables loader env os chainNum chainLen hashName tnum i files (Inl e)"

text \<open>\<open>main\<close>: its exit status, what it writes to \<open>stdout\<close> and to \<open>stderr\<close>, and
  the files after it.  \<open>hexnum0\<close>, \<open>seed0\<close> and \<open>ind\<close> are the indeterminate initial
  values of \<open>hexnum\<close> in \<open>bytesFromHash\<close>, of \<open>seed\<close>, and of the variables
  \<open>searchRainbowTable\<close> has \<open>sscanf\<close> fill.\<close>

inductive main_run ::
  "(string \<Rightarrow> hash_fn dl_lib) \<Rightarrow> rt_env \<Rightarrow> os_env \<Rightarrow> u32 \<Rightarrow> u32 \<Rightarrow> string \<times> u32 \<times> u32 \<Rightarrow> fs
    \<Rightarrow> string list \<Rightarrow> error + int \<times> string \<times> string \<times> fs \<Rightarrow> bool"
  for loader env os hexnum0 seed0 ind files argv where
  usage: "main_mode argv = Usage \<Longrightarrow>
    main_run loader env os hexnum0 seed0 ind files argv (Inr (0, [], usage_text, files))"
| invalid_args: "main_mode argv = InvalidArgs \<Longrightarrow>
    main_run loader env os hexnum0 seed0 ind files argv
      (Inr (1, [], usage_text @ LF @ ''[-] Invalid number of arguments'' @ LF, files))"
| invalid_mode: "main_mode argv = InvalidMode \<Longrightarrow>
    main_run loader env os hexnum0 seed0 ind files argv
      (Inr (1, [], usage_text @ LF @ ''[-] Invalid mode of operation.'' @ LF, files))"
| generate: "main_mode argv = Generate cn cl tnum name \<Longrightarrow>
    gen_tables loader env os cn cl name (unat tnum) 0 files out \<Longrightarrow>
    main_run loader env os hexnum0 seed0 ind files argv (map_sum id (\<lambda>files'. (0, [], [], files')) out)"
| search: "main_mode argv = Search t h \<Longrightarrow> bytesFromHash hexnum0 h = Inr bytes \<Longrightarrow>
    searchRainbowTable loader os files ind t bytes = Some (Inr (ret, s)) \<Longrightarrow>
    report ret (case s of Some x \<Rightarrow> x | None \<Rightarrow> seed0) = (out, err) \<Longrightarrow>
    main_run loader env os hexnum0 seed0 ind files argv (Inr (0, out, err, files))"
| search_undefined: "main_mode argv = Search t h \<Longrightarrow> bytesFromHash hexnum0 h = Inr bytes \<Longrightarrow>
    searchRainbowTable loader os files ind t bytes = Some (Inl e) \<Longrightarrow>
    main_run loader env os hexnum0 seed0 ind files argv (Inl e)"
| crack: "main_mode argv = CrackHash n h \<Longrightarrow> bytesFromHash hexnum0 h = Inr bytes \<Longrightarrow>
    searchHashOnline loader (nprocs env) n bytes (Some seed0) ret s \<Longrightarrow>
    report ret (case s of Some x \<Rightarrow> x | None \<Rightarrow> seed0) = (out, err) \<Longrightarrow>
    main_run loader env os hexnum0 seed0 ind files argv (Inr (0, out, err, files))"
| bad_hash: "main_mode argv \<in> {Search t h, CrackHash t h} \<Longrightarrow> bytesFromHash hexnum0 h = Inl e \<Longrightarrow>
    main_run loader env os hexnum0 seed0 ind files argv (Inl e)"

text \<open>A library with one entry, the identity hash of 4 bytes, and a system on which
  \<open>fstat\<close> and \<open>mmap\<close> succeed: the inputs of the concrete runs below.\<close>

definition id_loader :: "string \<Rightarrow> hash_fn dl_lib" where
  "id_loader lib = HashLib [(''id'', id_hash, 4)]"

definition os_ok :: os_env where
  "os_ok = \<lparr>fstat_ok = True, mmap_ok = True\<rparr>"

subsection \<open>Reading and printing digests\<close>

lemma digits_hex:
  assumes "n < 16"
  shows "is_xdigit (digits ! n) \<and> xdigit_val (digits ! n) = n \<and> \<not> is_space (digits ! n)
    \<and> digits ! n \<noteq> CHR 0x00 \<and> digits ! n \<noteq> CHR ''-'' \<and> digits ! n \<noteq> CHR ''+''"
proof -
  have "n \<in> set [0..<16]" using assms by simp
  then show ?thesis
    by (simp add: upt_conv_Cons digits_def is_xdigit_def xdigit_val_def is_digit_def digit_val_def is_space_def)
       (elim disjE; simp)
qed
lemma length_hex2 [simp]: "length (hex2 b) = 2"
  by (simp add: hex2_def)

lemma scan_hex_hex2: "scan_hex (hex2 b) = Some (ucast b)"
proof -
  have h: "unat b div 16 < 16" "unat b mod 16 < 16" using unat_u8_less [of b] by simp_all
  note d1 = digits_hex [OF h(1)] and d2 = digits_hex [OF h(2)]
  have "foldl (\<lambda>acc ch. 16 * acc + xdigit_val ch) 0 (hex2 b) = unat b"
    using d1 d2 by (simp add: hex2_def)
  then show ?thesis using d1 d2
    by (simp add: scan_hex_def hex2_def Let_def)
qed

lemma nth_concat_hex2:
  "k < length bs \<Longrightarrow> r < 2 \<Longrightarrow> concat (map hex2 bs) ! (2 * k + r) = hex2 (bs ! k) ! r"
proof (induction bs arbitrary: k)
  case Nil
  then show ?case by simp
next
  case (Cons b bs)
  show ?case
  proof (cases k)
    case 0
    with Cons.prems show ?thesis by (simp add: nth_append)
  next
    case (Suc k')
    then have "concat (map hex2 (b # bs)) ! (2 * k + r) = concat (map hex2 bs) ! (2 * k' + r)"
      using Cons.prems by (simp add: nth_append)
    with Cons.IH [of k'] Cons.prems Suc show ?thesis by simp
  qed
qed

lemma length_concat_hex2 [simp]: "length (concat (map hex2 bs)) = 2 * length bs"
  by (induction bs) simp_all

lemma bfh_loop_hex2:
  assumes "length bs = 16" "k \<le> 16"
  shows "bfh_loop (concat (map hex2 bs)) (2 * k) h acc = Inr (acc @ drop k bs)"
  using assms(2)
proof (induction "16 - k" arbitrary: k h acc)
  case 0
  then have "k = 16" by simp
  with assms show ?case by (subst bfh_loop.simps) simp
next
  case (Suc m)
  let ?s = "concat (map hex2 bs)"
  have k: "k < 16" using Suc by simp
  have c0: "str_at ?s (2 * k) = Inr (hex2 (bs ! k) ! 0)"
    using nth_concat_hex2 [of k bs 0] assms k by (simp add: str_at_def)
  have c1: "str_at ?s (2 * k + 1) = Inr (hex2 (bs ! k) ! 1)"
    using nth_concat_hex2 [of k bs 1] assms k by (simp add: str_at_def)
  have h: "unat (bs ! k) div 16 < 16" "unat (bs ! k) mod 16 < 16" using unat_u8_less [of "bs ! k"] by simp_all
  have num: "takeWhile (\<lambda>ch. ch \<noteq> CHR 0x00) [hex2 (bs ! k) ! 0, hex2 (bs ! k) ! 1] = hex2 (bs ! k)"
    using digits_hex [OF h(1)] digits_hex [OF h(2)] by (simp add: hex2_def)
  have "bfh_loop ?s (2 * (k + 1)) (ucast (bs ! k)) (acc @ [ucast (ucast (bs ! k) :: u32)]) =
    Inr (acc @ [ucast (ucast (bs ! k) :: u32)] @ drop (k + 1) bs)"
    using Suc.hyps(1) [of "k + 1"] Suc.hyps(2) k by simp
  moreover have "(ucast (ucast (bs ! k) :: u32) :: u8) = bs ! k" by simp
  moreover have "drop k bs = bs ! k # drop (k + 1) bs" using k assms(1) by (simp add: Cons_nth_drop_Suc)
  ultimately show ?case
    using k c0 c1 num scan_hex_hex2 [of "bs ! k"]
    by (subst bfh_loop.simps) (simp add: Let_def)
qed


lemma bytesFromHash_of_readable:
  assumes "16 \<le> length d"
  shows "bytesFromHash hexnum0 (readable d) = Inr (take 16 d @ replicate 48 0)"
proof -
  have "bfh_loop (concat (map hex2 (take 16 d))) (2 * 0) hexnum0 [] = Inr ([] @ drop 0 (take 16 d))"
    using assms by (intro bfh_loop_hex2) simp_all
  then show ?thesis using assms by (simp add: bytesFromHash_def readable_def MAX_HASH_SIZE_def)
qed

subsection \<open>Composition lemmas\<close>

lemma Inr_map_sum [simp]: "(Inr y = map_sum f g x) = (\<exists>z. x = Inr z \<and> y = g z)"
  by (cases x) auto

lemma write_table_other: "k \<noteq> nm \<Longrightarrow> write_table files nm f k = files k"
  by (simp add: write_table_def split: option.splits)

lemma sortRainbowTable_other:
  "sortRainbowTable os files nm cn = Inr (r, files') \<Longrightarrow> k \<noteq> nm \<Longrightarrow> files' k = files k"
  by (auto simp: sortRainbowTable_def Let_def split: option.splits if_splits)

lemma generateRainbowTable_other:
  "generateRainbowTable loader env os g files cn cl idx name (Inr (r, files')) \<Longrightarrow>
   k \<noteq> generateTableName name cn cl idx \<Longrightarrow> files' k = files k"
  by (erule generateRainbowTable.cases)
     (auto simp: write_table_other dest: sortRainbowTable_other split: sum.splits prod.splits)

lemma gen_tables_frame:
  "gen_tables loader env os cn cl name tnum i files out \<Longrightarrow> out = Inr files' \<Longrightarrow> files' k \<noteq> files k \<Longrightarrow>
   \<exists>j. i \<le> j \<and> j < tnum \<and> k = generateTableName name cn cl (of_nat j)"
proof (induction arbitrary: files' rule: gen_tables.induct)
  case (step i g files r files1 out)
  show ?case
  proof (cases "files1 k = files k")
    case True
    then show ?thesis using step by (metis Suc_leD)
  next
    case False
    then show ?thesis using step generateRainbowTable_other by blast
  qed
qed simp_all

lemma resolve_id: "resolveHashFunc id_loader ''id'' = Some (id_hash, 4)"
  by (simp add: resolveHashFunc_def id_loader_def MAX_HASHLIBS_def upt_rec)

lemma generateRainbowTable_table:
  assumes "generateRainbowTable loader env os g files cn cl idx name (Inr (1, files'))"
    "resolveHashFunc loader name = Some (H, hashLen)" "nprocs env < 2 ^ 32" "mmap_ok os"
  shows "\<exists>cs. files' (generateTableName name cn cl idx) = Some (encode_table cs) \<and> length cs = unat cn
    \<and> sorted (map endpoint cs) \<and> list_all (genuine H cl hashLen) cs"
  using assms(1)
proof (cases rule: generateRainbowTable.cases)
  case (sorted H' hashLen' r f res)
  let ?nm = "generateTableName name cn cl idx"
  have hh: "H' = H" "hashLen' = hashLen" using sorted(2) assms(2) by simp_all
  obtain cs where f: "f = Some cs" "length cs = unat cn" "list_all (genuine H cl hashLen) cs"
    using createRainbowTable_outcome [OF sorted(3) assms(3)] sorted(4) hh by auto
  let ?files1 = "files(?nm \<mapsto> encode_table cs)"
  have fs: "fstat_ok os"
  proof (rule ccontr)
    assume "\<not> fstat_ok os"
    then show False using sorted(1) sorted(5) [symmetric] f by (simp add: write_table_def sortRainbowTable_def)
  qed
  obtain cs' where s: "sortRainbowTable os ?files1 ?nm cn = Inr (1, ?files1(?nm \<mapsto> encode_table cs'))"
    and c: "length cs' = length cs" "sorted (map endpoint cs')" "mset cs' = mset cs"
    using sortRainbowTable_whole [of ?files1 ?nm cs os cn] fs assms(4) f by auto
  have "files' = ?files1(?nm \<mapsto> encode_table cs')"
    using sorted(1) sorted(5) [symmetric] s f by (simp add: write_table_def)
  then show ?thesis using c f list_all_mset_eq [OF c(3) f(3)] by auto
qed simp_all

lemma generate_run1: "\<exists>files'. generateRainbowTable id_loader pool_env1 os_ok cmwc_init Map.empty 1 0 0 ''id'' (Inr (1, files'))"
proof -
  obtain ch where c: "createRainbowTable pool_env1 cmwc_init 1 0 id_hash 4 1 (Some [ch])"
    using createRainbowTable_run1 by blast
  let ?nm = "generateTableName ''id'' 1 0 0"
  obtain cs' where s: "sortRainbowTable os_ok (write_table Map.empty ?nm (Some [ch])) ?nm 1 =
      Inr (1, (write_table Map.empty ?nm (Some [ch]))(?nm \<mapsto> encode_table cs'))"
    using sortRainbowTable_whole [of "write_table Map.empty ?nm (Some [ch])" ?nm "[ch]" os_ok 1]
    by (auto simp: write_table_def os_ok_def)
  have "generateRainbowTable id_loader pool_env1 os_ok cmwc_init Map.empty 1 0 0 ''id''
      (case sortRainbowTable os_ok (write_table Map.empty ?nm (Some [ch])) ?nm 1 of Inl e \<Rightarrow> Inl e
       | Inr (r', files') \<Rightarrow> Inr (if r' < 0 then -1 else 1, files'))"
    by (rule generateRainbowTable.sorted [OF resolve_id c]) simp_all
  then show ?thesis using s by auto
qed

lemma searchRainbowTable_generated:
  assumes "files (generateTableName name cn cl idx) = Some (encode_table cs)" "length cs = unat cn"
    "resolveHashFunc loader name = Some (H, len)" "fstat_ok os" "mmap_ok os"
    "name \<noteq> []" "length name < MAX_FUNC_NAME"
    "\<forall>c \<in> set name. \<not> is_space c \<and> c \<noteq> CHR ''.'' \<and> c \<noteq> CHR ''/''"
    "0 < unat cn" "unat cn \<le> 2 ^ 31"
  shows "\<exists>r. searchRainbowTable loader os files ind (generateTableName name cn cl idx) tg = Some r
    \<and> ((\<exists>s. r = Inr (1, Some s) \<and> memcmp_eq len (H s) tg) \<or> r = Inr (0, None) \<or> (\<exists>e. r = Inl e))"
proof -
  have p: "parseTablename (generateTableName name cn cl idx) = Inr (1, Some name, Some cn, Some cl)"
    using parse_generated_name [OF assms(6,7,8), of "[]"] by simp
  have "length cs < 2 ^ 32" using assms(2) unat_u32_less [of cn] by simp
  then obtain r where sh: "searchHashInMemory cs cn cl H len tg = Some r"
    using searchHashInMemory_returns [OF assms(9,10)] by blast
  have "(\<exists>s. r = Inr (Some s) \<and> memcmp_eq len (H s) tg) \<or> r = Inr None \<or> (\<exists>e. r = Inl e)"
    using searchHashInMemory_found [of cs cn cl H len tg] sh by (cases r) auto
  then show ?thesis using p sh assms(1,3,4,5)
    by (auto simp: searchRainbowTable_def)
qed

subsection \<open>Properties\<close>

text \<open>C31: Round trip of the digest text: \<open>bytesFromHash\<close> reads back the 16 bytes
  \<open>readable\<close> printed, followed by the 48 zero bytes of the \<open>memset\<close>, whatever
  the initial value of \<open>hexnum\<close>.\<close>

theorem bytesFromHash_readable:
  assumes "16 \<le> length d"
  shows "bytesFromHash hexnum0 (readable d) = Inr (take 16 d @ replicate 48 0)"
  using assms by (rule bytesFromHash_of_readable)

theorem bytesFromHash_readable_witness:
  "16 \<le> length (replicate 16 (7 :: u8)) \<and>
   bytesFromHash 0 (readable (replicate 16 7)) = Inr (replicate 16 7 @ replicate 48 0)"
  using bytesFromHash_readable [of "replicate 16 (7 :: u8)" 0] by simp



text \<open>C12: When \<open>generateRainbowTable\<close> returns 1 and \<open>mmap\<close> succeeds, the file named
  by \<open>generateTableName\<close> holds exactly \<open>chainNum\<close> chains, sorted by endpoint, each
  of them genuine for the resolved hash function.\<close>

theorem generateRainbowTable_builds_table:
  assumes "generateRainbowTable loader env os g files cn cl idx name (Inr (1, files'))"
    "resolveHashFunc loader name = Some (H, hashLen)" "nprocs env < 2 ^ 32" "mmap_ok os"
  shows "\<exists>cs. files' (generateTableName name cn cl idx) = Some (encode_table cs) \<and> length cs = unat cn
    \<and> sorted (map endpoint cs) \<and> list_all (genuine H cl hashLen) cs"
  using assms by (rule generateRainbowTable_table)

theorem generateRainbowTable_builds_table_witness:
  "\<exists>files'. generateRainbowTable id_loader pool_env1 os_ok cmwc_init Map.empty 1 0 0 ''id'' (Inr (1, files'))
     \<and> resolveHashFunc id_loader ''id'' = Some (id_hash, 4) \<and> nprocs pool_env1 < 2 ^ 32 \<and> mmap_ok os_ok
     \<and> (\<exists>cs. files' (generateTableName ''id'' 1 0 0) = Some (encode_table cs) \<and> length cs = 1
           \<and> sorted (map endpoint cs) \<and> list_all (genuine id_hash 0 4) cs)"
proof -
  obtain files' where g: "generateRainbowTable id_loader pool_env1 os_ok cmwc_init Map.empty 1 0 0 ''id'' (Inr (1, files'))"
    using generate_run1 by blast
  have np: "nprocs pool_env1 < 2 ^ 32" and mm: "mmap_ok os_ok" by (simp_all add: pool_env1_def os_ok_def)
  show ?thesis
    using generateRainbowTable_builds_table [OF g resolve_id np mm] g np mm resolve_id by auto
qed

text \<open>C34: The tables \<open>main\<close> generates in one run go to distinct files: for a hash
  name shorter than \<open>MAX_FUNC_NAME\<close>, different indices give different table names.\<close>

theorem generateTableName_distinct:
  assumes "length hashName < MAX_FUNC_NAME" "i \<noteq> j"
  shows "generateTableName hashName cn cl i \<noteq> generateTableName hashName cn cl j"
proof
  assume "generateTableName hashName cn cl i = generateTableName hashName cn cl j"
  then have "dec_string (unat i) = dec_string (unat j)" using generateTableName_short [OF assms(1)] by simp
  then show False using dec_string_inj assms(2) by (auto simp: word_unat_eq_iff)
qed

theorem generateTableName_distinct_witness:
  "length ''id'' < MAX_FUNC_NAME \<and> (0 :: u32) \<noteq> 1 \<and> generateTableName ''id'' 1 0 0 \<noteq> generateTableName ''id'' 1 0 1"
  using generateTableName_distinct [of "''id''" 0 1 1 0] by (simp add: MAX_FUNC_NAME_def)

text \<open>C33: \<open>main generate\<close> changes no file but the tables it names: every file that
  differs afterwards is \<open>generateTableName\<close> of the hash name, the chain parameters and
  an index below the table count.\<close>

theorem main_generate_writes_tables:
  assumes "main_run loader env os h0 s0 ind files argv (Inr (code, out, err, files'))"
    "main_mode argv = Generate cn cl tnum name" "files' k \<noteq> files k"
  shows "\<exists>i < unat tnum. k = generateTableName name cn cl (of_nat i)"
  using assms(1)
proof (cases rule: main_run.cases)
  case (generate cn' cl' tnum' name' out')
  then show ?thesis using assms(2,3) gen_tables_frame [of loader env os cn cl name "unat tnum" 0 files out' files' k]
    by (cases out') auto
qed (use assms(2,3) in auto)

theorem main_generate_writes_tables_witness:
  "\<exists>files'. main_run id_loader pool_env1 os_ok 0 0 (''x'', 0, 0) Map.empty
       [''snowflake'', ''generate'', ''1'', ''0'', ''1'', ''id''] (Inr (0, [], [], files'))
     \<and> main_mode [''snowflake'', ''generate'', ''1'', ''0'', ''1'', ''id''] = Generate 1 0 1 ''id''
     \<and> files' (generateTableName ''id'' 1 0 0) \<noteq> None
     \<and> (\<exists>i < unat (1 :: u32). generateTableName ''id'' 1 0 0 = generateTableName ''id'' 1 0 (of_nat i))"
proof -
  let ?argv = "[''snowflake'', ''generate'', ''1'', ''0'', ''1'', ''id'']"
  have m: "main_mode ?argv = Generate 1 0 1 ''id''"
    by (simp add: main_mode_def atoi_def is_space_def is_digit_def digit_val_def)
  obtain files' where g: "generateRainbowTable id_loader pool_env1 os_ok cmwc_init Map.empty 1 0 0 ''id'' (Inr (1, files'))"
    using generate_run1 by blast
  have np: "nprocs pool_env1 < 2 ^ 32" and mm: "mmap_ok os_ok" by (simp_all add: pool_env1_def os_ok_def)
  have w: "files' (generateTableName ''id'' 1 0 0) \<noteq> None"
    using generateRainbowTable_table [OF g resolve_id np mm] by auto
  have gt: "gen_tables id_loader pool_env1 os_ok 1 0 ''id'' 1 0 Map.empty (Inr files')"
    using gen_tables.step [of 0 1 id_loader pool_env1 os_ok cmwc_init Map.empty 1 0 "''id''" 1 files']
      gen_tables.stop [of 1 "Suc 0"] g by simp
  have "main_run id_loader pool_env1 os_ok 0 0 (''x'', 0, 0) Map.empty ?argv
      (map_sum id (\<lambda>files'. (0, [], [], files')) (Inr files'))"
    using gt by (intro main_run.generate [OF m]) simp
  then have r: "main_run id_loader pool_env1 os_ok 0 0 (''x'', 0, 0) Map.empty ?argv (Inr (0, [], [], files'))"
    by simp
  show ?thesis
    using main_generate_writes_tables [OF r m, of "generateTableName ''id'' 1 0 0"] r m w by auto
qed

text \<open>C32: \<open>main\<close> exits with 1 exactly on a wrong argument count or an unknown mode,
  with 0 otherwise; on exit 1 nothing goes to \<open>stdout\<close> and \<open>stderr\<close> gets the
  usage text first; only \<open>search\<close> and \<open>crack\<close> write to \<open>stdout\<close>, and only
  \<open>generate\<close> changes files.\<close>

theorem main_exit_status:
  assumes "main_run loader env os h0 s0 ind files argv (Inr (code, out, err, files'))"
  shows "(code = 1 \<longleftrightarrow> main_mode argv = InvalidArgs \<or> main_mode argv = InvalidMode) \<and> (code = 0 \<or> code = 1)
    \<and> (code = 1 \<longrightarrow> out = [] \<and> take (length usage_text) err = usage_text)
    \<and> (out \<noteq> [] \<longrightarrow> (\<exists>t h. main_mode argv = Search t h) \<or> (\<exists>n h. main_mode argv = CrackHash n h))
    \<and> (main_mode argv \<notin> {InvalidArgs, InvalidMode} \<longrightarrow> files' = files \<or> (\<exists>cn cl tnum name. main_mode argv = Generate cn cl tnum name))"
  using assms by (cases rule: main_run.cases) auto

theorem main_exit_status_witness:
  "main_run id_loader pool_env1 os_ok 0 0 (''x'', 0, 0) Map.empty [''snowflake'', ''search'']
     (Inr (1, [], usage_text @ LF @ ''[-] Invalid number of arguments'' @ LF, Map.empty))
   \<and> main_mode [''snowflake'', ''search''] = InvalidArgs"
proof -
  have m: "main_mode [''snowflake'', ''search''] = InvalidArgs" by (simp add: main_mode_def)
  have r: "main_run id_loader pool_env1 os_ok 0 0 (''x'', 0, 0) Map.empty [''snowflake'', ''search'']
      (Inr (1, [], usage_text @ LF @ ''[-] Invalid number of arguments'' @ LF, Map.empty))"
    by (rule main_run.invalid_args [OF m])
  show ?thesis using main_exit_status [OF r] r m by simp
qed

end
