(* ===== verification/Drivers.thy ===== *)
theory Drivers
  imports Tool
begin

text \<open>
  The two test programs of the repository: the \<open>main\<close> of \<open>src/snowflake/rand.c\<close>
  (lines 213--224, built with \<open>__STANDALONE__\<close>), which prints the \<open>wikihash\<close>
  digest of a seed in the form \<open>snowflake crack\<close> reads, and the \<open>main\<close> of
  \<open>src/unnamed/part_001\<close> (lines 143--157), which prints one \<open>php_mt_rand_range\<close>
  value and ten \<open>php_mt_rand\<close> values after \<open>mt_srand\<close>.
\<close>


text \<open>\<open>uint32_t seed = (argc > 1) ? atoi(argv[1]) : 1000\<close>.\<close>

definition mt_main_seed :: "string list \<Rightarrow> u32" where
  "mt_main_seed argv = (if 1 < length argv then word_of_int (atoi (argv ! 1)) else 1000)"

text \<open>The values the test \<open>main\<close> of part_001 prints, \<open>info\<close> being the
  uninitialised \<open>MTState\<close> on its stack.\<close>

definition mt_main :: "MTState \<Rightarrow> string list \<Rightarrow> error + u32 list" where
  "mt_main info argv =
     (let s = mt_srand (mt_main_seed argv) info
      in case php_mt_rand_range s 1000 2000 of
           Inl e \<Rightarrow> Inl e
         | Inr (r, s1) \<Rightarrow> (case php_mt_rands 10 s1 of Inl e \<Rightarrow> Inl e | Inr (rs, _) \<Rightarrow> Inr (r # rs)))"

subsection \<open>Lemmas\<close>


lemma length_php_mt_rands: "php_mt_rands n s = Inr (os, s') \<Longrightarrow> length os = n"
  by (induction n s arbitrary: os s' rule: php_mt_rands.induct) (auto split: sum.splits)

lemma mt_srand_run:
  assumes "length (state s) = mtN"
  obtains os s' where "php_mt_rands 11 (mt_srand sd s) = Inr (os, s')" "length os = 11"
    "\<forall>k < 11. os ! k = drop_bit 1 (mt_temper (php_twist (mt_seq sd (k + mtM)) (mt_seq sd k) (mt_seq sd (k + 1))))"
proof -
  obtain os s' where r: "php_mt_rands 11 (mt_srand sd s) = Inr (os, s')"
    using mt_srand_outputs [OF assms, of 0 11 sd] by (auto simp: mtN_mtM)
  have "os ! k = drop_bit 1 (mt_temper (php_twist (mt_seq sd (k + mtM)) (mt_seq sd k) (mt_seq sd (k + 1))))"
    if "k < 11" for k
    using mt_srand_outputs [OF assms, of k 11 sd] that r by (auto simp: mtN_mtM)
  then show ?thesis using that r length_php_mt_rands [OF r] by blast
qed

subsection \<open>Properties\<close>



text \<open>C38: The test program of part_001 prints \<open>php_mt_rand_range(1000, 2000)\<close> of the
  first output of the generator seeded with \<open>atoi(argv[1])\<close> (1000 without an
  argument), a value in \<open>[1000, 2000]\<close>, and then outputs 1 to 10 of that generator,
  each the reference Mersenne Twister word in closed form.\<close>

theorem mt_main_reference:
  assumes "length (state info) = mtN"
  shows "\<exists>os. mt_main info argv = Inr (rand_range (hd os) 1000 2000 # tl os) \<and> length os = 11
    \<and> 1000 \<le> rand_range (hd os) 1000 2000 \<and> rand_range (hd os) 1000 2000 \<le> 2000
    \<and> list_all (\<lambda>k. os ! k = drop_bit 1 (mt_temper (php_twist (mt_seq (mt_main_seed argv) (k + mtM))
          (mt_seq (mt_main_seed argv) k) (mt_seq (mt_main_seed argv) (k + 1))))) [0..<11]"
proof -
  let ?seed = "mt_main_seed argv"
  obtain os s' where r: "php_mt_rands 11 (mt_srand ?seed info) = Inr (os, s')" and l: "length os = 11"
    and v: "\<forall>k < 11. os ! k = drop_bit 1 (mt_temper (php_twist (mt_seq ?seed (k + mtM)) (mt_seq ?seed k) (mt_seq ?seed (k + 1))))"
    by (rule mt_srand_run [OF assms])
  obtain n0 s1 rs where p: "php_mt_rand (mt_srand ?seed info) = Inr (n0, s1)"
    and rs: "php_mt_rands 10 s1 = Inr (rs, s')" and os: "os = n0 # rs"
    using r by (auto simp: numeral_eq_Suc split: sum.splits prod.splits)
  have "mt_main info argv = Inr (rand_range n0 1000 2000 # rs)"
    using p rs by (simp add: mt_main_def php_mt_rand_range_def)
  moreover have "1000 \<le> rand_range n0 1000 2000 \<and> rand_range n0 1000 2000 \<le> 2000"
    using rand_range_nat [OF php_mt_rand_less [OF p], of 1000 2000] by (simp add: word_le_nat_alt)
  ultimately show ?thesis using l v os by (intro exI [of _ os]) (auto simp: list_all_iff)
qed

theorem mt_main_reference_witness:
  "length (state \<lparr>state = replicate 624 0, left = 0, next_pos = 0\<rparr>) = mtN
   \<and> (\<exists>os. mt_main \<lparr>state = replicate 624 0, left = 0, next_pos = 0\<rparr> [''mt''] = Inr (rand_range (hd os) 1000 2000 # tl os)
       \<and> length os = 11 \<and> 1000 \<le> rand_range (hd os) 1000 2000 \<and> rand_range (hd os) 1000 2000 \<le> 2000
       \<and> list_all (\<lambda>k. os ! k = drop_bit 1 (mt_temper (php_twist (mt_seq (mt_main_seed [''mt'']) (k + mtM))
          (mt_seq (mt_main_seed [''mt'']) k) (mt_seq (mt_main_seed [''mt'']) (k + 1))))) [0..<11])"
proof -
  have l: "length (state \<lparr>state = replicate 624 (0 :: u32), left = 0, next_pos = 0\<rparr>) = mtN" by (simp add: mtN_def)
  show ?thesis by (rule conjI [OF l mt_main_reference [OF l]])
qed

end
