(* ===== verification/Spec2Isabelle.thy ===== *)
theory Spec2Isabelle
  imports Drivers
begin

text \<open>
  \<^bold>\<open>A verification library for Snowflake\<close>, the rainbow-table engine of
  \<open>src/unnamed/part_000\<close> (\<open>snowflake.c\<close>: reduction, chain generation, table
  sorting and lookup, exhaustive search, table names, the command line) together with
  the multiply-with-carry generator, the \<open>wikihash\<close> plug-in and its test program in
  \<open>src/snowflake/rand.c\<close>, and the PHP Mersenne Twister with its test program in
  \<open>src/unnamed/part_001\<close>.

  \<^medskip>\<^bold>\<open>How the program is put together.\<close>
  \<open>snowflake generate N L T name\<close> resolves a hash function by name from the plug-in
  libraries (\<open>resolveHashFunc\<close>) and, for each of the \<open>T\<close> table indices, names a
  table file (\<open>generateTableName\<close>), lets one worker thread per processor produce chains
  (\<open>chainGenerationWorker\<close>: a start point from \<open>rand_cmwc_r\<close> walked by
  \<open>generateChain\<close>) into the file under a mutex, and sorts the memory-mapped file by
  endpoint (\<open>sortRainbowTable\<close>, \<open>quickSortTable\<close>).  \<open>snowflake search table hash\<close>
  reads the hex digest (\<open>bytesFromHash\<close>), parses the table name
  (\<open>parseTablename\<close>), maps the file and walks the target through every chain position
  (\<open>searchHashInMemory\<close>), looking candidate endpoints up by binary search
  (\<open>searchTable\<close>) and confirming them with \<open>regenerateChain\<close>.
  \<open>snowflake crack name hash\<close> scans the whole seed space with one worker per
  processor sharing a \<open>found\<close> flag (\<open>searchHashOnline\<close>).  The \<open>wikihash\<close>
  plug-in is the MediaWiki token: MD5 of two outputs of PHP's Mersenne Twister.

  \<^medskip>\<^bold>\<open>Theories.\<close>  Each opens with a text saying what it models, file and
  lines.
  \<^item> \<open>Prelude\<close>: machine types as words, the \<open>error\<close> type (\<open>OutOfBounds\<close> for a
    read past a buffer, \<open>NullDeref\<close>, I/O and allocation failures), \<open>rd\<close>,
    little-endian loads and stores, \<open>memcmp_eq\<close>, \<open>swap_at\<close>, \<open>dec_string\<close>
    (\<open>%u\<close>), segment and frame lemmas shared by the sorter and the store.
  \<^item> \<open>Reduction\<close>: \<open>reduce\<close> bit for bit, and \<open>reduce_spec\<close> of the specification.
  \<^item> \<open>Rand\<close>: the CMWC generator as a state record, the clock an argument.
  \<^item> \<open>Chain\<close>: the \<open>chain\<close> record, \<open>generateChain\<close>, \<open>regenerateChain\<close>.
  \<^item> \<open>Sorter\<close>: \<open>quickSortTable\<close> and its partition loop (\<open>function\<close> with a
    measure), against \<open>sort\<close> of the endpoints.
  \<^item> \<open>Lookup\<close>: \<open>searchTable\<close> and \<open>searchHashInMemory\<close>; the loops that may not
    return are \<open>partial_function (option)\<close>.
  \<^item> \<open>Pool\<close>: the generator threads as an inductive step relation \<open>pool_step\<close>
    on the shared state (generator, file, per-worker bucket and buffer), any
    interleaving, and \<open>createRainbowTable\<close> as the relation of its joined runs.
  \<^item> \<open>Store\<close>: the 8-byte record format, the file system as a map \<open>fs\<close>,
    \<open>sortRainbowTable\<close> with its \<open>fstat\<close>/\<open>mmap\<close> outcomes (\<open>os_env\<close>).
  \<^item> \<open>Names\<close>: \<open>generateTableName\<close>, and \<open>parseTablename\<close> with \<open>basename\<close>,
    \<open>strchr\<close> and the \<open>sscanf\<close> conversions.
  \<^item> \<open>Registry\<close>: the search over \<open>./hashlib0.so\<close> .. \<open>./hashlib9.so\<close>, the loader
    a function from paths to \<open>dl_lib\<close>, against the map of all entries.
  \<^item> \<open>Crack\<close>: \<open>seedRecoveryWorker\<close> alone and the workers as the step relation
    \<open>crack_step\<close>; \<open>searchHashOnline\<close> as the relation of its joined runs.
  \<^item> \<open>MT\<close>, \<open>Wikihash\<close>: the PHP Mersenne Twister with \<open>php_mt_rand_range\<close>, and
    the plug-in's truncated copy of it, \<open>hexConvert\<close> and \<open>mediawikiHash\<close>.
  \<^item> \<open>Tool\<close>: \<open>bytesFromHash\<close>, \<open>readable\<close>, \<open>generateRainbowTable\<close>,
    \<open>searchRainbowTable\<close> and \<open>main\<close> (\<open>main_mode\<close>, \<open>gen_tables\<close>, \<open>main_run\<close>).
  \<^item> \<open>Drivers\<close>: the test programs of \<open>rand.c\<close> and part_001.

  \<^medskip>\<^bold>\<open>What is proved\<close> (the claims C1--C40 of the manifest).
  \<^item> Lookup: every seed found hashes to the target; a target on a genuine chain of a
    sorted table (not the last entry) is never reported absent; the binary search finds exactly
    the endpoints of the first \<open>chainNum - 1\<close> entries of a sorted table and never
    the last; it returns when \<open>1 \<le> chainNum \<le> 2^31\<close> and the mapping has fewer
    than \<open>2^32\<close> records.
  \<^item> Chains and reduction: \<open>regenerateChain\<close> returns the first matching seed of a
    chain; \<open>reduce\<close> equals the specification's reduction unless a trailing byte is at
    least \<open>0x80\<close>, and salts rounds injectively.
  \<^item> Sorting and the table file: \<open>quickSortTable\<close> sorts by endpoint, permutes, and
    refines \<open>sort\<close> on the endpoints; the record codec round-trips; \<open>sortRainbowTable\<close> sorts in
    place or returns -1, but returns 1 on an \<open>mmap\<close> failure with the table unsorted.
  \<^item> Generation: every chain written is genuine under any interleaving, the file holds
    \<open>chainNum\<close> chains when 1 is returned, the workers terminate;
    \<open>generateRainbowTable\<close> leaves a sorted table of genuine chains; the tables of one
    run have distinct names and nothing else is written.
  \<^item> Generation and search together (below): a generated table is found and searched
    under its name, the search returns and its seeds are correct.
  \<^item> Names and registry: \<open>parseTablename\<close> inverts \<open>generateTableName\<close>, with the
    exact results on malformed names; \<open>resolveHashFunc\<close> is the lookup in the
    registry map.
  \<^item> Exhaustive search: the seed reported matches; the ranges cover the seed space;
    the workers never leave their loops when nothing matches (\<open>i <= MAX_SEED\<close> always
    holds), so \<open>crack\<close> runs forever on an unknown hash.
  \<^item> Generators: CMWC and MT states stay well formed, the CMWC carry stays bounded;
    the \<open>wikihash\<close> shortcut equals outputs 4 and 5 of the reference generator;
    \<open>php_mt_rand_range\<close> stays in \<open>[min, max]\<close> and is exact below \<open>2^22\<close>
    values but rounds wider ranges.
  \<^item> Command line (output on both streams): the digest text round trip of \<open>readable\<close>/\<open>bytesFromHash\<close> and
    its failures on bad input, the exit status of \<open>main\<close>, and the test programs'
    outputs.

  \<^medskip>\<^bold>\<open>Loops, bounds and fuel.\<close>  No fuel is used.  Loops with a decreasing
  measure are \<open>fun\<close>/\<open>function\<close> with a \<open>termination\<close> proof; loops that may run
  forever (the binary search on a wrapped \<open>beg + end\<close>, the do-while scan, the seed
  loop) are \<open>partial_function (option)\<close>, \<open>None\<close> being non-termination, and their
  termination is proved as \<open>\<exists>r. f x = Some r\<close> under the bounds that rule out the
  wrap.  Threads are interleavings of an inductive step relation; their termination is
  a strictly decreasing measure and progress of every running worker.

  \<^medskip>\<^bold>\<open>Not modelled.\<close> MD5 (\<open>md5.h\<close> is not in the repository; hash
  functions are parameters \<open>u32 \<Rightarrow> u8 list\<close>); the \<open>Makefile\<close> (build rules);
  process and thread creation as such; \<open>perror("mmap")\<close> (its text depends on
  \<open>errno\<close>; the other texts \<open>main\<close> writes to \<open>stdout\<close> and \<open>stderr\<close> are
  modelled); \<open>dlclose\<close>, \<open>free\<close> and the resulting leaks; the generator state
  threaded from one generated table to the next (each call may start from any state).
\<close>

subsection \<open>Generation and search together\<close>

text \<open>C13: A table that \<open>generateRainbowTable\<close> built (it returned 1, \<open>fstat\<close> and
  \<open>mmap\<close> succeed, a hash name of at most 63 characters without blanks, dots or
  slashes, \<open>1 \<le> chainNum \<le> 2^31\<close>) is found again by \<open>searchRainbowTable\<close> under the
  name it was written to: the search returns, never with -1, and a seed it reports
  hashes to the target.\<close>

theorem generate_then_search:
  assumes "generateRainbowTable loader env os g files cn cl idx name (Inr (1, files'))"
    "resolveHashFunc loader name = Some (H, len)" "nprocs env < 2 ^ 32" "fstat_ok os" "mmap_ok os"
    "name \<noteq> []" "length name < MAX_FUNC_NAME"
    "\<forall>c \<in> set name. \<not> is_space c \<and> c \<noteq> CHR ''.'' \<and> c \<noteq> CHR ''/''"
    "0 < unat cn" "unat cn \<le> 2 ^ 31"
  shows "\<exists>r. searchRainbowTable loader os files' ind (generateTableName name cn cl idx) tg = Some r
    \<and> ((\<exists>s. r = Inr (1, Some s) \<and> memcmp_eq len (H s) tg) \<or> r = Inr (0, None) \<or> (\<exists>e. r = Inl e))"
proof -
  obtain cs where "files' (generateTableName name cn cl idx) = Some (encode_table cs)" "length cs = unat cn"
    using generateRainbowTable_table [OF assms(1-3,5)] by blast
  then show ?thesis using searchRainbowTable_generated assms(2,4-10) by blast
qed

theorem generate_then_search_witness:
  "\<exists>files'. generateRainbowTable id_loader pool_env1 os_ok cmwc_init Map.empty 1 0 0 ''id'' (Inr (1, files'))
    \<and> (\<exists>r. searchRainbowTable id_loader os_ok files' (''x'', 0, 0) (generateTableName ''id'' 1 0 0) [0, 0, 0, 0] = Some r
    \<and> ((\<exists>s. r = Inr (1, Some s) \<and> memcmp_eq 4 (id_hash s) [0, 0, 0, 0]) \<or> r = Inr (0, None) \<or> (\<exists>e. r = Inl e)))"
proof -
  obtain files' where g: "generateRainbowTable id_loader pool_env1 os_ok cmwc_init Map.empty 1 0 0 ''id'' (Inr (1, files'))"
    using generate_run1 by blast
  have "\<forall>c \<in> set ''id''. \<not> is_space c \<and> c \<noteq> CHR ''.'' \<and> c \<noteq> CHR ''/''" by (simp add: is_space_def)
  then show ?thesis
    using generate_then_search [OF g resolve_id, of "(''x'', 0, 0)" "[0, 0, 0, 0]"] g
    by (simp add: pool_env1_def os_ok_def MAX_FUNC_NAME_def) blast
qed

end
